theory Spec2Isabelle
  imports Complex_Main "HOL-Library.Multiset"
begin

section \<open>Data model (types/index.ts)\<close>

datatype CellState = hidden | revealed | flagged | mine | exploded

record Position =
  row :: int
  col :: int

record Cell =
  state :: CellState
  hasMine :: bool
  adjacentMines :: int
  position :: Position

datatype GameStatus = playing | won | lost

record BoardState =
  cells :: "Cell list list"
  width :: int
  height :: int
  mineCount :: int
  revealedCount :: int
  flaggedCount :: int
  gameStatus :: GameStatus
  firstClick :: bool

text \<open>
  JavaScript numbers are modelled as unbounded integers. A function that reads
  \<^verbatim>\<open>board.cells[r][c]\<close> and then a property of the cell throws a TypeError when the
  array has no such element; every such function returns an option, \<open>None\<close> being the
  thrown TypeError.
\<close>

definition cellAt :: "Cell list list \<Rightarrow> Position \<Rightarrow> Cell option" where
  "cellAt cs p =
     (if 0 \<le> row p \<and> nat (row p) < length cs \<and> 0 \<le> col p \<and> nat (col p) < length (cs ! nat (row p))
      then Some (cs ! nat (row p) ! nat (col p)) else None)"

text \<open>An assignment to a property of the cell \<^verbatim>\<open>cells[r][c]\<close>, for a cell that exists:
  \<^verbatim>\<open>cells[r][c].state = s\<close>, \<^verbatim>\<open>cells[r][c].hasMine = true\<close>,
  \<^verbatim>\<open>cells[r][c].adjacentMines = n\<close>.\<close>

definition updateCell :: "Cell list list \<Rightarrow> Position \<Rightarrow> (Cell \<Rightarrow> Cell) \<Rightarrow> Cell list list" where
  "updateCell cs p f =
     cs[nat (row p) := (cs ! nat (row p))[nat (col p) := f (cs ! nat (row p) ! nat (col p))]]"

definition setState :: "Cell list list \<Rightarrow> Position \<Rightarrow> CellState \<Rightarrow> Cell list list" where
  "setState cs p s = updateCell cs p (\<lambda>c. c\<lparr>state := s\<rparr>)"

definition setAdjacentMines :: "Cell list list \<Rightarrow> Position \<Rightarrow> int \<Rightarrow> Cell list list" where
  "setAdjacentMines cs p n = updateCell cs p (\<lambda>c. c\<lparr>adjacentMines := n\<rparr>)"

text \<open>\<^verbatim>\<open>cells[r][c].hasMine = true\<close> throws when the cell does not exist.\<close>

definition setHasMine :: "Cell list list \<Rightarrow> Position \<Rightarrow> Cell list list option" where
  "setHasMine cs p =
     (case cellAt cs p of
        None \<Rightarrow> None
      | Some cl \<Rightarrow> Some (updateCell cs p (\<lambda>c. c\<lparr>hasMine := True\<rparr>)))"

text \<open>The positions visited by \<^verbatim>\<open>for row < height\<close>, \<^verbatim>\<open>for col < width\<close>, in that order.\<close>

definition boardPositions :: "int \<Rightarrow> int \<Rightarrow> Position list" where
  "boardPositions h w =
     concat (map (\<lambda>r. map (\<lambda>c. \<lparr>row = int r, col = int c\<rparr>) [0..<nat w]) [0..<nat h])"

section \<open>Board logic (utils/gameLogic.ts)\<close>

definition isValidPosition :: "BoardState \<Rightarrow> Position \<Rightarrow> bool" where
  "isValidPosition board p \<longleftrightarrow>
     row p \<ge> 0 \<and> row p < height board \<and> col p \<ge> 0 \<and> col p < width board"

definition getAdjacentPositions :: "BoardState \<Rightarrow> Position \<Rightarrow> Position list" where
  "getAdjacentPositions board p =
     concat (map (\<lambda>r. concat (map (\<lambda>c.
        if r \<ge> 0 \<and> r < height board \<and> c \<ge> 0 \<and> c < width board
        then (if r \<noteq> row p \<or> c \<noteq> col p then [\<lparr>row = r, col = c\<rparr>] else [])
        else [])
       [col p - 1, col p, col p + 1]))
      [row p - 1, row p, row p + 1])"

definition createEmptyBoard :: "int \<Rightarrow> int \<Rightarrow> BoardState" where
  "createEmptyBoard w h =
     \<lparr>cells = map (\<lambda>r. map (\<lambda>c.
                \<lparr>state = hidden, hasMine = False, adjacentMines = 0,
                 position = \<lparr>row = int r, col = int c\<rparr>\<rparr>) [0..<nat w]) [0..<nat h],
      width = w, height = h, mineCount = 0, revealedCount = 0, flaggedCount = 0,
      gameStatus = playing, firstClick = True\<rparr>"

text \<open>The collection loop shared by \<^verbatim>\<open>placeMines\<close> and
  \<^verbatim>\<open>createBoardWithMines\<close>: every position of the board outside the safe zone.\<close>

definition collectAvailable :: "int \<Rightarrow> int \<Rightarrow> Position option \<Rightarrow> Position list" where
  "collectAvailable h w safeZone =
     filter (\<lambda>p. case safeZone of
                    None \<Rightarrow> True
                  | Some sz \<Rightarrow> \<not> (\<bar>row p - row sz\<bar> \<le> 1 \<and> \<bar>col p - col sz\<bar> \<le> 1))
            (boardPositions h w)"

text \<open>The counting loop of \<^verbatim>\<open>countAdjacentMines\<close>. Its two nested loops visit the
  positions that \<^verbatim>\<open>getAdjacentPositions\<close> collects, under the same conditions and in the
  same order.\<close>

fun countMinesLoop :: "BoardState \<Rightarrow> Position list \<Rightarrow> int \<Rightarrow> int option" where
  "countMinesLoop board [] cnt = Some cnt"
| "countMinesLoop board (q # qs) cnt =
     (case cellAt (cells board) q of
        None \<Rightarrow> None
      | Some cl \<Rightarrow> countMinesLoop board qs (if hasMine cl then cnt + 1 else cnt))"

definition countAdjacentMines :: "BoardState \<Rightarrow> Position \<Rightarrow> int option" where
  "countAdjacentMines board p = countMinesLoop board (getAdjacentPositions board p) 0"

fun adjacentMinesLoop :: "Position list \<Rightarrow> BoardState \<Rightarrow> BoardState option" where
  "adjacentMinesLoop [] newBoard = Some newBoard"
| "adjacentMinesLoop (p # ps) newBoard =
     (case cellAt (cells newBoard) p of
        None \<Rightarrow> None
      | Some cl \<Rightarrow>
          if \<not> hasMine cl then
            (case countAdjacentMines newBoard p of
               None \<Rightarrow> None
             | Some n \<Rightarrow>
                 adjacentMinesLoop ps (newBoard\<lparr>cells := setAdjacentMines (cells newBoard) p n\<rparr>))
          else adjacentMinesLoop ps newBoard)"

definition calculateAdjacentMines :: "BoardState \<Rightarrow> BoardState option" where
  "calculateAdjacentMines board =
     adjacentMinesLoop (boardPositions (height board) (width board)) board"

text \<open>The loop \<^verbatim>\<open>for (i = 0; i < minesToPlace; i++)\<close> of \<^verbatim>\<open>placeMines\<close>; destructuring
  \<^verbatim>\<open>shuffled[i]\<close> throws when the array is too short.\<close>

fun placeMinesLoop :: "Position list \<Rightarrow> nat list \<Rightarrow> Cell list list \<Rightarrow> Cell list list option" where
  "placeMinesLoop shuffled [] cs = Some cs"
| "placeMinesLoop shuffled (i # rest) cs =
     (if i < length shuffled
      then (case setHasMine cs (shuffled ! i) of
              None \<Rightarrow> None
            | Some cs' \<Rightarrow> placeMinesLoop shuffled rest cs')
      else None)"

text \<open>\<^verbatim>\<open>[...availablePositions].sort(() => Math.random() - 0.5)\<close> has no specified
  result beyond being a reordering of the array; the reordering is the parameter
  \<open>shuffle\<close>.\<close>

definition placeMines ::
  "(Position list \<Rightarrow> Position list) \<Rightarrow> BoardState \<Rightarrow> int \<Rightarrow> Position option \<Rightarrow> BoardState option" where
  "placeMines shuffle board mines safeZone =
     (let newBoard = board\<lparr>mineCount := mines\<rparr>;
          availablePositions = collectAvailable (height board) (width board) safeZone;
          minesToPlace = min mines (int (length availablePositions));
          shuffled = shuffle availablePositions
      in case placeMinesLoop shuffled [0..<nat minesToPlace] (cells newBoard) of
           None \<Rightarrow> None
         | Some cs \<Rightarrow> calculateAdjacentMines (newBoard\<lparr>cells := cs\<rparr>))"

text \<open>The loop of the mine branch of \<^verbatim>\<open>revealCell\<close>: every mined cell that is not exploded
  is shown as a mine.\<close>

fun revealAllMines :: "Position list \<Rightarrow> Cell list list \<Rightarrow> Cell list list option" where
  "revealAllMines [] cs = Some cs"
| "revealAllMines (p # ps) cs =
     (case cellAt cs p of
        None \<Rightarrow> None
      | Some cl \<Rightarrow>
          revealAllMines ps
            (if hasMine cl \<and> state cl \<noteq> exploded then setState cs p mine else cs))"

text \<open>The inner \<^verbatim>\<open>for (const adjPos of adjacentPositions)\<close> loop of the flood fill. The
  stack \<^verbatim>\<open>toReveal\<close> is kept with its top (the end of the array) at the head of the list.\<close>

fun revealNeighbours ::
  "Position list \<Rightarrow> BoardState \<times> Position list \<Rightarrow> (BoardState \<times> Position list) option" where
  "revealNeighbours [] (nb, toReveal) = Some (nb, toReveal)"
| "revealNeighbours (adjPos # rest) (nb, toReveal) =
     (case cellAt (cells nb) adjPos of
        None \<Rightarrow> None
      | Some adjCell \<Rightarrow>
          if state adjCell = hidden \<and> \<not> hasMine adjCell
          then revealNeighbours rest
                 (nb\<lparr>cells := setState (cells nb) adjPos revealed,
                     revealedCount := revealedCount nb + 1\<rparr>,
                  if adjacentMines adjCell = 0 then adjPos # toReveal else toReveal)
          else revealNeighbours rest (nb, toReveal))"

definition hiddenCount :: "Cell list list \<Rightarrow> nat" where
  "hiddenCount cs = sum_list (map (\<lambda>r. length (filter (\<lambda>c. state c = hidden) r)) cs)"


lemma cellAt_Some_iff:
  "cellAt cs p = Some cl \<longleftrightarrow>
     0 \<le> row p \<and> nat (row p) < length cs \<and> 0 \<le> col p \<and> nat (col p) < length (cs ! nat (row p))
     \<and> cl = cs ! nat (row p) ! nat (col p)"
  by (auto simp: cellAt_def)

lemma hiddenCount_setState:
  assumes "cellAt cs p = Some cl" "state cl = hidden" "s \<noteq> hidden"
  shows "Suc (hiddenCount (setState cs p s)) = hiddenCount cs"
proof -
  let ?i = "nat (row p)" and ?j = "nat (col p)"
  let ?f = "\<lambda>r. length (filter (\<lambda>c. state c = hidden) r)"
  from assms(1) have i: "?i < length cs" and j: "?j < length (cs ! ?i)"
    and cl: "cl = cs ! ?i ! ?j" by (auto simp: cellAt_Some_iff)
  have row: "Suc (?f ((cs ! ?i)[?j := cl\<lparr>state := s\<rparr>])) = ?f (cs ! ?i)"
  proof -
    have "cs ! ?i = take ?j (cs ! ?i) @ cl # drop (Suc ?j) (cs ! ?i)"
      using j cl by (simp add: id_take_nth_drop)
    moreover have "(cs ! ?i)[?j := cl\<lparr>state := s\<rparr>] = take ?j (cs ! ?i) @ cl\<lparr>state := s\<rparr> # drop (Suc ?j) (cs ! ?i)"
      using j by (simp add: upd_conv_take_nth_drop)
    ultimately have "?f (cs ! ?i) = ?f (take ?j (cs ! ?i) @ cl # drop (Suc ?j) (cs ! ?i))"
      and "?f ((cs ! ?i)[?j := cl\<lparr>state := s\<rparr>]) = ?f (take ?j (cs ! ?i) @ cl\<lparr>state := s\<rparr> # drop (Suc ?j) (cs ! ?i))"
      by simp_all
    then show ?thesis using assms(2,3) by simp
  qed
  have "hiddenCount (setState cs p s) = sum_list ((map ?f cs)[?i := ?f ((cs ! ?i)[?j := cl\<lparr>state := s\<rparr>])])"
    unfolding hiddenCount_def setState_def updateCell_def using cl by (simp add: map_update)
  also have "\<dots> = sum_list (map ?f cs) + ?f ((cs ! ?i)[?j := cl\<lparr>state := s\<rparr>]) - ?f (cs ! ?i)"
    using i by (simp add: sum_list_update)
  finally have "hiddenCount (setState cs p s) = hiddenCount cs + ?f ((cs ! ?i)[?j := cl\<lparr>state := s\<rparr>]) - ?f (cs ! ?i)"
    by (simp add: hiddenCount_def)
  moreover have "?f (cs ! ?i) \<le> hiddenCount cs"
  proof -
    have "?f (cs ! ?i) \<in> set (map ?f cs)" using i by (simp add: image_iff) (metis nth_mem)
    then show ?thesis unfolding hiddenCount_def by (simp add: member_le_sum_list)
  qed
  ultimately show ?thesis using row by linarith
qed

lemma revealNeighbours_measure:
  "revealNeighbours as (nb, st) = Some (nb', st') \<Longrightarrow>
   hiddenCount (cells nb') + length st' \<le> hiddenCount (cells nb) + length st"
proof (induction as arbitrary: nb st)
  case Nil
  then show ?case by simp
next
  case (Cons a as)
  from Cons.prems obtain cl where cl: "cellAt (cells nb) a = Some cl"
    by (auto split: option.splits)
  show ?case
  proof (cases "state cl = hidden \<and> \<not> hasMine cl")
    case True
    let ?nb = "nb\<lparr>cells := setState (cells nb) a revealed, revealedCount := revealedCount nb + 1\<rparr>"
    let ?st = "if adjacentMines cl = 0 then a # st else st"
    from Cons.prems cl True have "revealNeighbours as (?nb, ?st) = Some (nb', st')" by simp
    from Cons.IH[OF this] have "hiddenCount (cells nb') + length st' \<le> hiddenCount (cells ?nb) + length ?st" .
    moreover have "Suc (hiddenCount (cells ?nb)) = hiddenCount (cells nb)"
      using hiddenCount_setState[OF cl] True by simp
    ultimately show ?thesis by (auto split: if_splits)
  next
    case False
    with Cons.prems cl have "revealNeighbours as (nb, st) = Some (nb', st')" by auto
    from Cons.IH[OF this] show ?thesis .
  qed
qed

function floodFill :: "BoardState \<Rightarrow> Position list \<Rightarrow> Position set \<Rightarrow> BoardState option" where
  "floodFill nb [] visited = Some nb"
| "floodFill nb (current # toReveal) visited =
     (if current \<in> visited then floodFill nb toReveal visited
      else case revealNeighbours (getAdjacentPositions nb current) (nb, toReveal) of
             None \<Rightarrow> None
           | Some (nb', toReveal') \<Rightarrow> floodFill nb' toReveal' (insert current visited))"
  by pat_completeness auto
termination
proof (relation "measure (\<lambda>(nb, toReveal, visited). hiddenCount (cells nb) + length toReveal)", goal_cases)
  case 1 show ?case by simp
next
  case 2 then show ?case by simp
next
  case (3 nb current toReveal visited x2 nb' toReveal')
  then show ?case using revealNeighbours_measure[of "getAdjacentPositions nb current" nb toReveal nb' toReveal'] by simp
qed


definition revealCell :: "BoardState \<Rightarrow> Position \<Rightarrow> BoardState option" where
  "revealCell board p =
     (if row p < 0 \<or> row p \<ge> height board \<or> col p < 0 \<or> col p \<ge> width board
      then Some board
      else case cellAt (cells board) p of
        None \<Rightarrow> None
      | Some cell \<Rightarrow>
          if state cell = revealed \<or> state cell = flagged then Some board
          else
            let newBoard = board\<lparr>firstClick := False\<rparr> in
            if hasMine cell then
              (case revealAllMines (boardPositions (height board) (width board))
                      (setState (cells newBoard) p exploded) of
                 None \<Rightarrow> None
               | Some cs \<Rightarrow> Some (newBoard\<lparr>cells := cs, gameStatus := lost\<rparr>))
            else
              let newBoard = newBoard\<lparr>cells := setState (cells newBoard) p revealed,
                                       revealedCount := revealedCount newBoard + 1\<rparr> in
              case (if adjacentMines cell = 0 then floodFill newBoard [p] {} else Some newBoard) of
                None \<Rightarrow> None
              | Some newBoard \<Rightarrow>
                  let totalCells = width board * height board in
                  Some (if revealedCount newBoard = totalCells - mineCount board
                        then newBoard\<lparr>gameStatus := won\<rparr> else newBoard))"

definition toggleFlag :: "BoardState \<Rightarrow> Position \<Rightarrow> BoardState option" where
  "toggleFlag board p =
     (if row p < 0 \<or> row p \<ge> height board \<or> col p < 0 \<or> col p \<ge> width board
      then Some board
      else case cellAt (cells board) p of
        None \<Rightarrow> None
      | Some cell \<Rightarrow>
          if state cell = revealed \<or> state cell = mine \<or> state cell = exploded then Some board
          else if state cell = flagged
          then Some (board\<lparr>cells := setState (cells board) p hidden,
                            flaggedCount := flaggedCount board - 1\<rparr>)
          else Some (board\<lparr>cells := setState (cells board) p flagged,
                            flaggedCount := flaggedCount board + 1\<rparr>))"

section \<open>Hint engine (ai/hintEngine.ts)\<close>

datatype MoveType = safe | logical | probability

text \<open>Fractional JavaScript numbers (probabilities, scores) are modelled as exact reals;
  the rounding of IEEE doubles is not modelled.\<close>

record HintResult =
  suggestedMove :: Position
  moveType :: MoveType
  confidence :: real
  reasoning :: string

text \<open>\<^verbatim>\<open>positions.map(pos => board.cells[pos.row][pos.col])\<close> followed by a read of
  each cell: a TypeError when one of the cells is missing.\<close>

definition cellsAt :: "BoardState \<Rightarrow> Position list \<Rightarrow> Cell list option" where
  "cellsAt board ps = those (map (cellAt (cells board)) ps)"

text \<open>\<^verbatim>\<open>positions.filter(pos => board.cells[pos.row][pos.col].state === s)\<close>, given the
  cells at these positions.\<close>

definition positionsInState :: "CellState \<Rightarrow> Position list \<Rightarrow> Cell list \<Rightarrow> Position list" where
  "positionsInState s ps cls = map fst (filter (\<lambda>(pos, c). state c = s) (zip ps cls))"

fun removeDuplicatesFrom :: "Position set \<Rightarrow> Position list \<Rightarrow> Position list" where
  "removeDuplicatesFrom seen [] = []"
| "removeDuplicatesFrom seen (pos # ps) =
     (if pos \<in> seen then removeDuplicatesFrom seen ps
      else pos # removeDuplicatesFrom (insert pos seen) ps)"

definition removeDuplicatePositions :: "Position list \<Rightarrow> Position list" where
  "removeDuplicatePositions positions = removeDuplicatesFrom {} positions"

fun findSafeMovesLoop :: "BoardState \<Rightarrow> Position list \<Rightarrow> Position list \<Rightarrow> Position list option" where
  "findSafeMovesLoop board [] safeMoves = Some safeMoves"
| "findSafeMovesLoop board (p # ps) safeMoves =
     (case cellAt (cells board) p of
        None \<Rightarrow> None
      | Some cell \<Rightarrow>
          if state cell = revealed \<and> adjacentMines cell > 0 then
            (let adjacentPositions = getAdjacentPositions board p in
             case cellsAt board adjacentPositions of
               None \<Rightarrow> None
             | Some adjacentCells \<Rightarrow>
                 let flaggedCount = int (length (filter (\<lambda>c. state c = flagged) adjacentCells));
                     hiddenCells = positionsInState hidden adjacentPositions adjacentCells
                 in if flaggedCount = adjacentMines cell \<and> length hiddenCells > 0
                    then findSafeMovesLoop board ps (safeMoves @ hiddenCells)
                    else findSafeMovesLoop board ps safeMoves)
          else findSafeMovesLoop board ps safeMoves)"

definition findSafeMoves :: "BoardState \<Rightarrow> Position list option" where
  "findSafeMoves board =
     map_option removeDuplicatePositions
       (findSafeMovesLoop board (boardPositions (height board) (width board)) [])"

fun findLogicalMovesLoop :: "BoardState \<Rightarrow> Position list \<Rightarrow> Position list \<Rightarrow> Position list option" where
  "findLogicalMovesLoop board [] logicalMoves = Some logicalMoves"
| "findLogicalMovesLoop board (p # ps) logicalMoves =
     (case cellAt (cells board) p of
        None \<Rightarrow> None
      | Some cell \<Rightarrow>
          if state cell = revealed \<and> adjacentMines cell > 0 then
            (let adjacentPositions = getAdjacentPositions board p in
             case cellsAt board adjacentPositions of
               None \<Rightarrow> None
             | Some adjacentCells \<Rightarrow>
                 let flaggedCount = int (length (filter (\<lambda>c. state c = flagged) adjacentCells));
                     hiddenPositions = positionsInState hidden adjacentPositions adjacentCells
                 in if flaggedCount + int (length hiddenPositions) = adjacentMines cell
                       \<and> length hiddenPositions > 0
                    then findLogicalMovesLoop board ps logicalMoves
                    else findLogicalMovesLoop board ps logicalMoves)
          else findLogicalMovesLoop board ps logicalMoves)"

definition findLogicalMoves :: "BoardState \<Rightarrow> Position list option" where
  "findLogicalMoves board =
     findLogicalMovesLoop board (boardPositions (height board) (width board)) []"

fun getCellsByStateLoop :: "BoardState \<Rightarrow> CellState \<Rightarrow> Position list \<Rightarrow> Position list option" where
  "getCellsByStateLoop board s [] = Some []"
| "getCellsByStateLoop board s (p # ps) =
     (case cellAt (cells board) p of
        None \<Rightarrow> None
      | Some cell \<Rightarrow>
          map_option (\<lambda>positions. if state cell = s then p # positions else positions)
            (getCellsByStateLoop board s ps))"

definition getCellsByState :: "BoardState \<Rightarrow> CellState \<Rightarrow> Position list option" where
  "getCellsByState board s = getCellsByStateLoop board s (boardPositions (height board) (width board))"

text \<open>The loop of \<^verbatim>\<open>calculateSafeProbability\<close> over the adjacent positions, with the
  accumulators \<^verbatim>\<open>totalConstraints\<close> and \<^verbatim>\<open>totalMinesNeeded\<close>.\<close>

fun constraintLoop :: "BoardState \<Rightarrow> Position list \<Rightarrow> int \<times> real \<Rightarrow> (int \<times> real) option" where
  "constraintLoop board [] acc = Some acc"
| "constraintLoop board (adjPos # ps) (totalConstraints, totalMinesNeeded) =
     (case cellAt (cells board) adjPos of
        None \<Rightarrow> None
      | Some adjCell \<Rightarrow>
          if state adjCell = revealed \<and> adjacentMines adjCell > 0 then
            (let adjAdjacent = getAdjacentPositions board adjPos in
             case cellsAt board adjAdjacent of
               None \<Rightarrow> None
             | Some adjAdjacentCells \<Rightarrow>
                 let flaggedCount = int (length (filter (\<lambda>c. state c = flagged) adjAdjacentCells));
                     hiddenCount = int (length (filter (\<lambda>c. state c = hidden) adjAdjacentCells))
                 in if hiddenCount > 0
                    then constraintLoop board ps
                           (totalConstraints + 1,
                            totalMinesNeeded
                              + real_of_int (adjacentMines adjCell - flaggedCount) / real_of_int hiddenCount)
                    else constraintLoop board ps (totalConstraints, totalMinesNeeded))
          else constraintLoop board ps (totalConstraints, totalMinesNeeded))"

definition calculateSafeProbability :: "BoardState \<Rightarrow> Position \<Rightarrow> real option" where
  "calculateSafeProbability board p =
     (case constraintLoop board (getAdjacentPositions board p) (0, 0) of
        None \<Rightarrow> None
      | Some (totalConstraints, totalMinesNeeded) \<Rightarrow>
          if totalConstraints = 0 then
            (let totalCells = width board * height board;
                 revealedCells = revealedCount board;
                 flaggedCells = flaggedCount board;
                 remainingCells = totalCells - revealedCells - flaggedCells;
                 remainingMines = mineCount board - flaggedCells
             in Some (if remainingCells > 0
                      then 1 - real_of_int remainingMines / real_of_int remainingCells else 0))
          else
            (let avgMineProbability = totalMinesNeeded / real_of_int totalConstraints
             in Some (max 0 (min 1 (1 - avgMineProbability)))))"

fun probabilityLoop :: "BoardState \<Rightarrow> Position list \<Rightarrow> (Position \<times> real) list option" where
  "probabilityLoop board [] = Some []"
| "probabilityLoop board (p # ps) =
     (case calculateSafeProbability board p of
        None \<Rightarrow> None
      | Some pr \<Rightarrow> map_option (\<lambda>moves. (p, pr) # moves) (probabilityLoop board ps))"

text \<open>\<^verbatim>\<open>Array.prototype.sort\<close> is stable; sorting by \<^verbatim>\<open>b.probability - a.probability\<close>
  orders by descending probability.\<close>

definition findProbabilityMoves :: "BoardState \<Rightarrow> (Position \<times> real) list option" where
  "findProbabilityMoves board =
     (case getCellsByState board hidden of
        None \<Rightarrow> None
      | Some hiddenCells \<Rightarrow>
          map_option (sort_key (\<lambda>m. - snd m)) (probabilityLoop board hiddenCells))"

definition calculateInformationGain :: "BoardState \<Rightarrow> Position \<Rightarrow> int option" where
  "calculateInformationGain board p =
     (case cellAt (cells board) p of
        None \<Rightarrow> None
      | Some cell \<Rightarrow>
          if adjacentMines cell = 0 then Some 10
          else map_option (\<lambda>cls. int (length (filter (\<lambda>c. state c = hidden) cls)))
                 (cellsAt board (getAdjacentPositions board p)))"

fun bestMoveLoop :: "BoardState \<Rightarrow> Position list \<Rightarrow> Position \<times> int \<Rightarrow> Position option" where
  "bestMoveLoop board [] (bestMove, maxInformationGain) = Some bestMove"
| "bestMoveLoop board (move # ms) (bestMove, maxInformationGain) =
     (case calculateInformationGain board move of
        None \<Rightarrow> None
      | Some informationGain \<Rightarrow>
          if informationGain > maxInformationGain
          then bestMoveLoop board ms (move, informationGain)
          else bestMoveLoop board ms (bestMove, maxInformationGain))"

text \<open>\<^verbatim>\<open>selectBestSafeMove\<close> is only called with a non-empty list; on the empty list
  \<^verbatim>\<open>safeMoves[0]\<close> is \<^verbatim>\<open>undefined\<close>, modelled as a thrown error as well.\<close>

definition selectBestSafeMove :: "BoardState \<Rightarrow> Position list \<Rightarrow> Position option" where
  "selectBestSafeMove board safeMoves =
     (case safeMoves of
        [] \<Rightarrow> None
      | [m] \<Rightarrow> Some m
      | m # _ \<Rightarrow> bestMoveLoop board safeMoves (m, 0))"

definition selectBestLogicalMove :: "BoardState \<Rightarrow> Position list \<Rightarrow> Position option" where
  "selectBestLogicalMove board logicalMoves = (case logicalMoves of [] \<Rightarrow> None | m # _ \<Rightarrow> Some m)"

fun showNat :: "nat \<Rightarrow> string" where
  "showNat n = (if n < 10 then [''0123456789'' ! n] else showNat (n div 10) @ [''0123456789'' ! (n mod 10)])"

definition showInt :: "int \<Rightarrow> string" where
  "showInt i = (if i < 0 then ''-'' @ showNat (nat (- i)) else showNat (nat i))"

fun explainSafeMoveLoop :: "BoardState \<Rightarrow> Position list \<Rightarrow> string option" where
  "explainSafeMoveLoop board [] =
     Some ''This cell is safe based on logical deduction from surrounding numbers.''"
| "explainSafeMoveLoop board (adjPos # ps) =
     (case cellAt (cells board) adjPos of
        None \<Rightarrow> None
      | Some adjCell \<Rightarrow>
          if state adjCell = revealed \<and> adjacentMines adjCell > 0 then
            (case cellsAt board (getAdjacentPositions board adjPos) of
               None \<Rightarrow> None
             | Some adjAdjacentCells \<Rightarrow>
                 let flaggedCount = int (length (filter (\<lambda>c. state c = flagged) adjAdjacentCells))
                 in if flaggedCount = adjacentMines adjCell
                    then Some (''This cell is safe because the '' @ showInt (adjacentMines adjCell)
                               @ '' at ('' @ showInt (row adjPos + 1) @ '', '' @ showInt (col adjPos + 1)
                               @ '') already has all its mines flagged.'')
                    else explainSafeMoveLoop board ps)
          else explainSafeMoveLoop board ps)"

definition explainSafeMove :: "BoardState \<Rightarrow> Position \<Rightarrow> string option" where
  "explainSafeMove board p = explainSafeMoveLoop board (getAdjacentPositions board p)"

definition explainLogicalMove :: "BoardState \<Rightarrow> Position \<Rightarrow> string" where
  "explainLogicalMove board p =
     ''This cell can be determined through logical deduction from the surrounding numbered cells.''"

text \<open>\<^verbatim>\<open>Math.round\<close> rounds half up.\<close>

definition mathRound :: "real \<Rightarrow> int" where
  "mathRound x = \<lfloor>x + 1 / 2\<rfloor>"

text \<open>The result is \<open>None\<close> for a thrown TypeError, \<open>Some None\<close> for \<^verbatim>\<open>null\<close> and
  \<open>Some (Some hint)\<close> for a hint.\<close>

definition analyzeBoard :: "BoardState \<Rightarrow> HintResult option option" where
  "analyzeBoard board =
     (if gameStatus board \<noteq> playing \<or> firstClick board then Some None
      else case findSafeMoves board of
        None \<Rightarrow> None
      | Some safeMoves \<Rightarrow>
          if length safeMoves > 0 then
            (case selectBestSafeMove board safeMoves of
               None \<Rightarrow> None
             | Some bestMove \<Rightarrow>
                 (case explainSafeMove board bestMove of
                    None \<Rightarrow> None
                  | Some text \<Rightarrow>
                      Some (Some \<lparr>suggestedMove = bestMove, moveType = safe, confidence = 1,
                                  reasoning = text\<rparr>)))
          else
            (case findLogicalMoves board of
               None \<Rightarrow> None
             | Some logicalMoves \<Rightarrow>
                 if length logicalMoves > 0 then
                   (case selectBestLogicalMove board logicalMoves of
                      None \<Rightarrow> None
                    | Some bestMove \<Rightarrow>
                        Some (Some \<lparr>suggestedMove = bestMove, moveType = logical, confidence = 9 / 10,
                                    reasoning = explainLogicalMove board bestMove\<rparr>))
                 else
                   (case findProbabilityMoves board of
                      None \<Rightarrow> None
                    | Some probabilityMoves \<Rightarrow>
                        (case probabilityMoves of
                           [] \<Rightarrow> Some None
                         | bestMove # _ \<Rightarrow>
                             Some (Some \<lparr>suggestedMove = fst bestMove, moveType = probability,
                                         confidence = snd bestMove,
                                         reasoning = ''This cell has a '' @ showInt (mathRound (snd bestMove * 100))
                                           @ ''% chance of being safe based on probability analysis.''\<rparr>)))))"

section \<open>Mine placer (ai/minePlacer.ts)\<close>

text \<open>
  \<^verbatim>\<open>Math.random()\<close> is an oracle: the function \<open>rnd\<close> gives the value of each call, and the
  number of calls made so far is threaded through the functions that draw from it.
\<close>

definition nthOpt :: "'a list \<Rightarrow> int \<Rightarrow> 'a option" where
  "nthOpt xs i = (if 0 \<le> i \<and> nat i < length xs then Some (xs ! nat i) else None)"

definition euclideanDistance :: "Position \<Rightarrow> Position \<Rightarrow> real" where
  "euclideanDistance pos1 pos2 =
     (let dx = col pos1 - col pos2; dy = row pos1 - row pos2
      in sqrt (real_of_int (dx * dx + dy * dy)))"

definition calculateEdgePenalty :: "Position \<Rightarrow> int \<Rightarrow> int \<Rightarrow> real" where
  "calculateEdgePenalty p w h =
     (let penalty = 0;
          penalty = (if row p = 0 \<or> row p = h - 1 then penalty + 1 / 2 else penalty);
          penalty = (if col p = 0 \<or> col p = w - 1 then penalty + 1 / 2 else penalty)
      in penalty)"

definition calculatePositionScore :: "real \<Rightarrow> Position \<Rightarrow> Position list \<Rightarrow> int \<Rightarrow> int \<Rightarrow> real" where
  "calculatePositionScore random p placedMines w h =
     (let score = fold (\<lambda>mine score. score + euclideanDistance p mine) placedMines 0;
          edgePenalty = calculateEdgePenalty p w h;
          score = score - edgePenalty;
          score = score + random * 2
      in score)"

text \<open>The result is \<open>None\<close> for a thrown TypeError (\<^verbatim>\<open>topCandidates[randomIndex]\<close>
  undefined); otherwise the selected position (\<open>None\<close> for \<^verbatim>\<open>null\<close> or
  \<^verbatim>\<open>undefined\<close>) and the number of random draws made so far.\<close>

definition selectMinePosition ::
  "(nat \<Rightarrow> real) \<Rightarrow> nat \<Rightarrow> Position list \<Rightarrow> Position list \<Rightarrow> int \<Rightarrow> int
     \<Rightarrow> (Position option \<times> nat) option" where
  "selectMinePosition rnd n availablePositions placedMines w h =
     (if length availablePositions = 0 then Some (None, n)
      else if length placedMines = 0 then
        (let randomIndex = \<lfloor>rnd n * real (length availablePositions)\<rfloor>
         in Some (nthOpt availablePositions randomIndex, n + 1))
      else
        (let scoredPositions =
               map (\<lambda>(i, pos). (pos, calculatePositionScore (rnd (n + i)) pos placedMines w h))
                   (enumerate 0 availablePositions);
             n = n + length availablePositions;
             scoredPositions = sort_key (\<lambda>sp. - snd sp) scoredPositions;
             topCandidates = take (min 5 (length scoredPositions)) scoredPositions;
             randomIndex = \<lfloor>rnd n * real (length topCandidates)\<rfloor>
         in case nthOpt topCandidates randomIndex of
              None \<Rightarrow> None
            | Some candidate \<Rightarrow> Some (Some (fst candidate), n + 1)))"

text \<open>The placement loop of \<^verbatim>\<open>createBoardWithMines\<close>; the state is the cells of the board,
  \<^verbatim>\<open>availablePositions\<close>, \<^verbatim>\<open>placedMines\<close> and the number of random draws.\<close>

fun placementLoop ::
  "(nat \<Rightarrow> real) \<Rightarrow> int \<Rightarrow> int \<Rightarrow> nat
     \<Rightarrow> Cell list list \<times> Position list \<times> Position list \<times> nat
     \<Rightarrow> (Cell list list \<times> Position list \<times> Position list \<times> nat) option" where
  "placementLoop rnd w h 0 st = Some st"
| "placementLoop rnd w h (Suc k) (cs, availablePositions, placedMines, n) =
     (case selectMinePosition rnd n availablePositions placedMines w h of
        None \<Rightarrow> None
      | Some (None, n') \<Rightarrow> placementLoop rnd w h k (cs, availablePositions, placedMines, n')
      | Some (Some pos, n') \<Rightarrow>
          (case setHasMine cs pos of
             None \<Rightarrow> None
           | Some cs' \<Rightarrow>
               placementLoop rnd w h k
                 (cs', remove1 pos availablePositions, placedMines @ [pos], n')))"

text \<open>The private \<^verbatim>\<open>countAdjacentMines\<close> and \<^verbatim>\<open>calculateAdjacentMines\<close> of the mine
  placer. The latter updates the board in place; it reads only \<^verbatim>\<open>hasMine\<close> and writes only
  \<^verbatim>\<open>adjacentMines\<close>.\<close>

definition placerCountAdjacentMines :: "BoardState \<Rightarrow> Position \<Rightarrow> int option" where
  "placerCountAdjacentMines board p = countMinesLoop board (getAdjacentPositions board p) 0"

fun placerAdjacentMinesLoop :: "Position list \<Rightarrow> BoardState \<Rightarrow> BoardState option" where
  "placerAdjacentMinesLoop [] board = Some board"
| "placerAdjacentMinesLoop (p # ps) board =
     (case cellAt (cells board) p of
        None \<Rightarrow> None
      | Some cl \<Rightarrow>
          if \<not> hasMine cl then
            (case placerCountAdjacentMines board p of
               None \<Rightarrow> None
             | Some n \<Rightarrow>
                 placerAdjacentMinesLoop ps (board\<lparr>cells := setAdjacentMines (cells board) p n\<rparr>))
          else placerAdjacentMinesLoop ps board)"

definition placerCalculateAdjacentMines :: "BoardState \<Rightarrow> BoardState option" where
  "placerCalculateAdjacentMines board =
     placerAdjacentMinesLoop (boardPositions (height board) (width board)) board"

definition createBoardWithMines ::
  "(nat \<Rightarrow> real) \<Rightarrow> nat \<Rightarrow> int \<Rightarrow> int \<Rightarrow> int \<Rightarrow> Position option \<Rightarrow> (BoardState \<times> nat) option" where
  "createBoardWithMines rnd n w h mines safeZone =
     (let board = createEmptyBoard w h;
          availablePositions = collectAvailable h w safeZone;
          minesToPlace = min mines (int (length availablePositions))
      in case placementLoop rnd w h (nat minesToPlace) (cells board, availablePositions, [], n) of
           None \<Rightarrow> None
         | Some (cs, availablePositions', placedMines, n') \<Rightarrow>
             map_option (\<lambda>b. (b, n'))
               (placerCalculateAdjacentMines
                  (board\<lparr>cells := cs, mineCount := int (length placedMines)\<rparr>)))"

text \<open>The loop of \<^verbatim>\<open>validateSolvability\<close> that reveals the safe moves on the test board;
  the flag \<^verbatim>\<open>progress\<close> is returned with the board.\<close>

fun revealSafeMoves :: "Position list \<Rightarrow> BoardState \<times> bool \<Rightarrow> (BoardState \<times> bool) option" where
  "revealSafeMoves [] st = Some st"
| "revealSafeMoves (move # ms) (testBoard, progress) =
     (case cellAt (cells testBoard) move of
        None \<Rightarrow> None
      | Some cl \<Rightarrow>
          if state cl = hidden
          then revealSafeMoves ms
                 (testBoard\<lparr>cells := setState (cells testBoard) move revealed,
                            revealedCount := revealedCount testBoard + 1\<rparr>, True)
          else revealSafeMoves ms (testBoard, progress))"

text \<open>The \<^verbatim>\<open>while (progress && iterations < maxIterations)\<close> loop. The result is
  \<open>Inl True\<close> when the loop returns \<^verbatim>\<open>true\<close>, and \<open>Inr testBoard\<close> when it ends.\<close>

function solveLoop :: "bool \<Rightarrow> nat \<Rightarrow> BoardState \<Rightarrow> (bool + BoardState) option" where
  "solveLoop progress iterations testBoard =
     (if progress \<and> iterations < 100 then
        (case findSafeMoves testBoard of
           None \<Rightarrow> None
         | Some safeMoves \<Rightarrow>
             (case revealSafeMoves safeMoves (testBoard, False) of
                None \<Rightarrow> None
              | Some (testBoard', progress') \<Rightarrow>
                  let totalCells = width testBoard' * height testBoard' in
                  if revealedCount testBoard' \<ge> totalCells - mineCount testBoard'
                  then Some (Inl True)
                  else solveLoop progress' (iterations + 1) testBoard'))
      else Some (Inr testBoard))"
  by pat_completeness auto
termination
  by (relation "measure (\<lambda>(progress, iterations, testBoard). 100 - iterations)") auto

text \<open>The loop ends only when \<^verbatim>\<open>revealedCount\<close> is below
  \<^verbatim>\<open>totalCells - mineCount\<close>, so the divisor of \<^verbatim>\<open>solvePercentage\<close> is zero only for a
  negative \<^verbatim>\<open>revealedCount\<close>; there the JavaScript quotient is \<^verbatim>\<open>-Infinity\<close> and the
  quotient here is 0, and the comparison is false for both.\<close>

definition validateSolvability :: "BoardState \<Rightarrow> bool option" where
  "validateSolvability board =
     (case solveLoop True 0 board of
        None \<Rightarrow> None
      | Some (Inl result) \<Rightarrow> Some result
      | Some (Inr testBoard) \<Rightarrow>
          let solvePercentage =
                real_of_int (revealedCount testBoard)
                / real_of_int (width testBoard * height testBoard - mineCount testBoard)
          in Some (solvePercentage > 7 / 10))"

definition optimizeMineDistribution :: "BoardState \<Rightarrow> BoardState" where
  "optimizeMineDistribution board = board"

text \<open>The retry loop of \<^verbatim>\<open>generateBoard\<close>, followed by the fallback to
  \<^verbatim>\<open>placeMines\<close>.\<close>

function generateLoop ::
  "(nat \<Rightarrow> real) \<Rightarrow> (Position list \<Rightarrow> Position list) \<Rightarrow> nat \<Rightarrow> nat
     \<Rightarrow> int \<Rightarrow> int \<Rightarrow> int \<Rightarrow> Position option \<Rightarrow> BoardState option" where
  "generateLoop rnd shuffle attempts n w h mines safeZone =
     (if attempts < 50 then
        (case createBoardWithMines rnd n w h mines safeZone of
           None \<Rightarrow> None
         | Some (board, n') \<Rightarrow>
             (case validateSolvability board of
                None \<Rightarrow> None
              | Some solvable \<Rightarrow>
                  if solvable then Some (optimizeMineDistribution board)
                  else generateLoop rnd shuffle (attempts + 1) n' w h mines safeZone))
      else placeMines shuffle (createEmptyBoard w h) mines safeZone)"
  by pat_completeness auto
termination
  by (relation "measure (\<lambda>(rnd, shuffle, attempts, n, w, h, mines, safeZone). 50 - attempts)") auto

definition generateBoard ::
  "(nat \<Rightarrow> real) \<Rightarrow> (Position list \<Rightarrow> Position list)
     \<Rightarrow> int \<Rightarrow> int \<Rightarrow> int \<Rightarrow> Position option \<Rightarrow> BoardState option" where
  "generateBoard rnd shuffle w h mines safeZone = generateLoop rnd shuffle 0 0 w h mines safeZone"

section \<open>Click handlers (components/Board/GameBoard.tsx)\<close>

text \<open>The two handlers as functions from the board held by the component to the board it
  holds afterwards; \<open>mines\<close> is the \<^verbatim>\<open>mineCount\<close> property of the component.\<close>

definition handleCellClick ::
  "(nat \<Rightarrow> real) \<Rightarrow> (Position list \<Rightarrow> Position list) \<Rightarrow> int
     \<Rightarrow> BoardState \<Rightarrow> Position \<Rightarrow> BoardState option" where
  "handleCellClick rnd shuffle mines board p =
     (if gameStatus board \<noteq> playing then Some board
      else case (if firstClick board
                 then generateBoard rnd shuffle (width board) (height board) mines (Some p)
                 else Some board) of
             None \<Rightarrow> None
           | Some newBoard \<Rightarrow> revealCell newBoard p)"

definition handleCellRightClick :: "BoardState \<Rightarrow> Position \<Rightarrow> BoardState option" where
  "handleCellRightClick board p =
     (if gameStatus board \<noteq> playing then Some board else toggleFlag board p)"

text \<open>A sequence of calls of the two board operations.\<close>

datatype Operation = Reveal Position | ToggleFlag Position

fun applyOperations :: "BoardState \<Rightarrow> Operation list \<Rightarrow> BoardState option" where
  "applyOperations board [] = Some board"
| "applyOperations board (Reveal p # ops) =
     (case revealCell board p of None \<Rightarrow> None | Some board' \<Rightarrow> applyOperations board' ops)"
| "applyOperations board (ToggleFlag p # ops) =
     (case toggleFlag board p of None \<Rightarrow> None | Some board' \<Rightarrow> applyOperations board' ops)"

section \<open>Difficulty adapter (ai/difficultyAdapter.ts)\<close>

datatype DifficultyLevel = beginner | intermediate | expert

record PlayerStats =
  gamesPlayed :: int
  gamesWon :: int
  averageTime :: real
  hintsUsed :: int
  currentStreak :: int
  preferredDifficulty :: DifficultyLevel

record DifficultySetting =
  baseWidth :: int
  baseHeight :: int
  baseMines :: int
  maxMines :: int

fun difficultySettings :: "DifficultyLevel \<Rightarrow> DifficultySetting" where
  "difficultySettings beginner = \<lparr>baseWidth = 9, baseHeight = 9, baseMines = 10, maxMines = 15\<rparr>"
| "difficultySettings intermediate = \<lparr>baseWidth = 16, baseHeight = 16, baseMines = 40, maxMines = 60\<rparr>"
| "difficultySettings expert = \<lparr>baseWidth = 30, baseHeight = 16, baseMines = 99, maxMines = 150\<rparr>"

datatype Trend = improving | declining | stable

definition analyzeRecentPerformance :: "PlayerStats \<Rightarrow> Trend \<times> real" where
  "analyzeRecentPerformance playerStats =
     (if currentStreak playerStats > 2 then (improving, 8 / 10)
      else if currentStreak playerStats < - 2 then (declining, 8 / 10)
      else (stable, 6 / 10))"

definition calculateMineCount :: "PlayerStats \<Rightarrow> int" where
  "calculateMineCount playerStats =
     (let settings = difficultySettings (preferredDifficulty playerStats) in
      if gamesPlayed playerStats < 3 then baseMines settings
      else
        let winRate = real_of_int (gamesWon playerStats) / real_of_int (gamesPlayed playerStats);
            recentPerformance = analyzeRecentPerformance playerStats;
            adjustment = (0 :: int);
            adjustment =
              (if winRate > 8 / 10 then adjustment + 3
               else if winRate > 6 / 10 then adjustment + 1
               else if winRate < 3 / 10 then adjustment - 3
               else if winRate < 5 / 10 then adjustment - 1
               else adjustment);
            adjustment =
              (if fst recentPerformance = improving \<and> snd recentPerformance > 7 / 10 then adjustment + 1
               else if fst recentPerformance = declining \<and> snd recentPerformance > 7 / 10 then adjustment - 1
               else adjustment);
            adjustment =
              (if currentStreak playerStats \<ge> 5 then adjustment + 2
               else if currentStreak playerStats \<le> - 3 then adjustment - 2
               else adjustment);
            avgHintsPerGame = real_of_int (hintsUsed playerStats) / real_of_int (gamesPlayed playerStats);
            adjustment = (if avgHintsPerGame > 3 then adjustment - 1 else adjustment)
        in max \<lfloor>real_of_int (baseMines settings) * (7 / 10)\<rfloor>
               (min (maxMines settings) (baseMines settings + adjustment)))"

text \<open>The four adjustments as the specification lists them.\<close>

definition winRateAdjustment :: "PlayerStats \<Rightarrow> int" where
  "winRateAdjustment s =
     (let winRate = real_of_int (gamesWon s) / real_of_int (gamesPlayed s) in
      if winRate > 8 / 10 then 3 else if winRate > 6 / 10 then 1
      else if winRate < 3 / 10 then - 3 else if winRate < 5 / 10 then - 1 else 0)"

definition recentTrendAdjustment :: "PlayerStats \<Rightarrow> int" where
  "recentTrendAdjustment s =
     (if currentStreak s > 2 then 1 else if currentStreak s < - 2 then - 1 else 0)"

definition streakBonusAdjustment :: "PlayerStats \<Rightarrow> int" where
  "streakBonusAdjustment s =
     (if currentStreak s \<ge> 5 then 2 else if currentStreak s \<le> - 3 then - 2 else 0)"

definition hintOveruseAdjustment :: "PlayerStats \<Rightarrow> int" where
  "hintOveruseAdjustment s =
     (if real_of_int (hintsUsed s) / real_of_int (gamesPlayed s) > 3 then - 1 else 0)"

section \<open>Well-formed boards\<close>

text \<open>The data model of a board: \<open>height\<close> rows of \<open>width\<close> cells each.\<close>

definition wellFormed :: "BoardState \<Rightarrow> bool" where
  "wellFormed board \<longleftrightarrow>
     length (cells board) = nat (height board)
     \<and> (\<forall>r \<in> set (cells board). length r = nat (width board))"

definition noExploded :: "BoardState \<Rightarrow> bool" where
  "noExploded board \<longleftrightarrow> (\<forall>r \<in> set (cells board). \<forall>c \<in> set r. state c \<noteq> exploded)"

text \<open>What setting \<^verbatim>\<open>hasMine\<close> at the positions \<open>M\<close> does to the cell at \<open>q\<close>.\<close>

definition minedIn :: "Position set \<Rightarrow> Position \<Rightarrow> Cell \<Rightarrow> Cell" where
  "minedIn M q c = (if q \<in> M then c\<lparr>hasMine := True\<rparr> else c)"

text \<open>The values of \<^verbatim>\<open>Math.random()\<close> lie in [0, 1); a shuffle reorders its argument.\<close>

definition validRandom :: "(nat \<Rightarrow> real) \<Rightarrow> bool" where
  "validRandom rnd \<longleftrightarrow> (\<forall>i. 0 \<le> rnd i \<and> rnd i < 1)"

definition validShuffle :: "(Position list \<Rightarrow> Position list) \<Rightarrow> bool" where
  "validShuffle shuffle \<longleftrightarrow> (\<forall>xs. mset (shuffle xs) = mset xs)"

text \<open>The mines around a position, and boards whose clues count them.\<close>

definition minedAt :: "BoardState \<Rightarrow> Position \<Rightarrow> bool" where
  "minedAt b q \<longleftrightarrow> (case cellAt (cells b) q of None \<Rightarrow> False | Some c \<Rightarrow> hasMine c)"

definition adjacentMineCount :: "BoardState \<Rightarrow> Position \<Rightarrow> int" where
  "adjacentMineCount b p = int (length (filter (minedAt b) (getAdjacentPositions b p)))"

definition cluesConsistent :: "BoardState \<Rightarrow> bool" where
  "cluesConsistent b \<longleftrightarrow>
     (\<forall>p c. cellAt (cells b) p = Some c \<and> \<not> hasMine c \<longrightarrow> adjacentMines c = adjacentMineCount b p)"

text \<open>What the loop of \<^verbatim>\<open>calculateAdjacentMines\<close> has done to the cell at \<open>q\<close> once it has
  visited the positions \<open>S\<close>.\<close>

definition cluedIn :: "BoardState \<Rightarrow> Position set \<Rightarrow> Position \<Rightarrow> Cell \<Rightarrow> Cell" where
  "cluedIn b S q c =
     (if q \<in> S \<and> \<not> hasMine c then c\<lparr>adjacentMines := adjacentMineCount b q\<rparr> else c)"

text \<open>A freshly generated board with dimensions \<open>w\<close> and \<open>h\<close> whose mines all lie in \<open>M\<close>:
  well-formed, every cell hidden, clues consistent with the mines.\<close>

definition freshBoard :: "int \<Rightarrow> int \<Rightarrow> Position set \<Rightarrow> BoardState \<Rightarrow> bool" where
  "freshBoard w h M b \<longleftrightarrow>
     wellFormed b \<and> width b = w \<and> height b = h \<and> cluesConsistent b
     \<and> (\<forall>q c. cellAt (cells b) q = Some c \<longrightarrow> state c = hidden)
     \<and> (\<forall>q c. cellAt (cells b) q = Some c \<and> hasMine c \<longrightarrow> q \<in> M)"

text \<open>No cell of the board within Chebyshev distance 1 of \<open>sz\<close> has a mine.\<close>

definition safeZoneClear :: "Position \<Rightarrow> BoardState \<Rightarrow> bool" where
  "safeZoneClear sz b \<longleftrightarrow>
     (\<forall>p c. \<bar>row p - row sz\<bar> \<le> 1 \<and> \<bar>col p - col sz\<bar> \<le> 1 \<and> cellAt (cells b) p = Some c
            \<longrightarrow> \<not> hasMine c)"

section \<open>Regions of the flood fill\<close>

text \<open>Two positions are adjacent when their Chebyshev distance is 1.\<close>

definition adjacent :: "Position \<Rightarrow> Position \<Rightarrow> bool" where
  "adjacent p q \<longleftrightarrow> \<bar>row q - row p\<bar> \<le> 1 \<and> \<bar>col q - col p\<bar> \<le> 1 \<and> q \<noteq> p"

definition hiddenSafe :: "BoardState \<Rightarrow> Position \<Rightarrow> bool" where
  "hiddenSafe b q \<longleftrightarrow>
     (case cellAt (cells b) q of None \<Rightarrow> False | Some c \<Rightarrow> state c = hidden \<and> \<not> hasMine c)"

definition hiddenZero :: "BoardState \<Rightarrow> Position \<Rightarrow> bool" where
  "hiddenZero b q \<longleftrightarrow>
     (case cellAt (cells b) q of
        None \<Rightarrow> False
      | Some c \<Rightarrow> state c = hidden \<and> \<not> hasMine c \<and> adjacentMines c = 0)"

text \<open>The connected region of hidden zero-clue non-mine cells that contains \<open>p\<close>, and the
  region together with the hidden non-mine cells that border it.\<close>

definition zeroStep :: "BoardState \<Rightarrow> (Position \<times> Position) set" where
  "zeroStep b = {(x, y). hiddenZero b x \<and> hiddenZero b y \<and> adjacent x y}"

definition zeroRegion :: "BoardState \<Rightarrow> Position \<Rightarrow> Position set" where
  "zeroRegion b p = {z. (p, z) \<in> (zeroStep b)\<^sup>*}"

definition floodRegion :: "BoardState \<Rightarrow> Position \<Rightarrow> Position set" where
  "floodRegion b p =
     zeroRegion b p \<union> {q. hiddenSafe b q \<and> (\<exists>z \<in> zeroRegion b p. adjacent z q)}"

definition revealedAt :: "Position set \<Rightarrow> Position \<Rightarrow> Cell \<Rightarrow> Cell" where
  "revealedAt R q c = (if q \<in> R then c\<lparr>state := revealed\<rparr> else c)"

text \<open>The invariant of the flood-fill loop: \<open>R\<close> is the set of cells revealed so far.\<close>

definition floodInv ::
  "BoardState \<Rightarrow> Position \<Rightarrow> Position set \<Rightarrow> BoardState \<Rightarrow> Position list \<Rightarrow> Position set \<Rightarrow> bool" where
  "floodInv b p R nb toReveal visited \<longleftrightarrow>
     width nb = width b \<and> height nb = height b \<and> map length (cells nb) = map length (cells b)
     \<and> (\<forall>q. cellAt (cells nb) q = map_option (revealedAt R q) (cellAt (cells b) q))
     \<and> p \<in> R \<and> (\<forall>q\<in>R. hiddenSafe b q)
     \<and> visited \<subseteq> zeroRegion b p \<and> set toReveal \<subseteq> zeroRegion b p
     \<and> (\<forall>z\<in>visited. \<forall>q. adjacent z q \<and> hiddenSafe b q \<longrightarrow> q \<in> R)
     \<and> (\<forall>q\<in>R. hiddenZero b q \<longrightarrow> q \<in> visited \<union> set toReveal)
     \<and> (\<forall>q\<in>R. q = p \<or> (\<exists>z\<in>visited. adjacent z q))"

text \<open>What the mine branch of \<^verbatim>\<open>revealCell\<close> at \<open>p\<close> does to the cell at \<open>q\<close>.\<close>

definition shownMine :: "Position \<Rightarrow> Position \<Rightarrow> Cell \<Rightarrow> Cell" where
  "shownMine p q c =
     (if q = p then c\<lparr>state := exploded\<rparr>
      else if hasMine c \<and> state c \<noteq> exploded then c\<lparr>state := mine\<rparr> else c)"

text \<open>A step from the cells of \<open>b\<close> to the cells \<open>cs\<close> that only reveals hidden non-mine
  cells.\<close>

definition revealStep :: "BoardState \<Rightarrow> Cell list list \<Rightarrow> bool" where
  "revealStep b cs \<longleftrightarrow>
     (\<forall>q. cellAt cs q = cellAt (cells b) q
          \<or> (hiddenSafe b q \<and> cellAt cs q = map_option (\<lambda>c. c\<lparr>state := revealed\<rparr>) (cellAt (cells b) q)))"

text \<open>What the loop of the mine branch has done to the cell at \<open>q\<close> once it has visited the
  positions \<open>S\<close>.\<close>

definition markMine :: "Position set \<Rightarrow> Position \<Rightarrow> Cell \<Rightarrow> Cell" where
  "markMine S q c = (if q \<in> S \<and> hasMine c \<and> state c \<noteq> exploded then c\<lparr>state := mine\<rparr> else c)"

section \<open>An example game\<close>

text \<open>
  A game on a board of 4 columns and 2 rows with one mine, first click at (0, 0), where every
  call of \<^verbatim>\<open>Math.random()\<close> returns 0 and the shuffle of \<^verbatim>\<open>placeMines\<close> reverses the
  array. The mine is then at (1, 3).
\<close>

definition zeroRandom :: "nat \<Rightarrow> real" where
  "zeroRandom i = 0"

definition pos :: "int \<Rightarrow> int \<Rightarrow> Position" where
  "pos r c = \<lparr>row = r, col = c\<rparr>"

definition exampleCell :: "int \<Rightarrow> int \<Rightarrow> bool \<Rightarrow> int \<Rightarrow> CellState \<Rightarrow> Cell" where
  "exampleCell r c m n s = \<lparr>state = s, hasMine = m, adjacentMines = n, position = \<lparr>row = r, col = c\<rparr>\<rparr>"

text \<open>The cells of the example board, given the states of the eight cells.\<close>

definition exampleCells ::
  "CellState \<Rightarrow> CellState \<Rightarrow> CellState \<Rightarrow> CellState
   \<Rightarrow> CellState \<Rightarrow> CellState \<Rightarrow> CellState \<Rightarrow> CellState \<Rightarrow> Cell list list" where
  "exampleCells s00 s01 s02 s03 s10 s11 s12 s13 =
     [[exampleCell 0 0 False 0 s00, exampleCell 0 1 False 0 s01,
       exampleCell 0 2 False 1 s02, exampleCell 0 3 False 1 s03],
      [exampleCell 1 0 False 0 s10, exampleCell 1 1 False 0 s11,
       exampleCell 1 2 False 1 s12, exampleCell 1 3 True 0 s13]]"

definition exampleBoard :: "Cell list list \<Rightarrow> int \<Rightarrow> int \<Rightarrow> GameStatus \<Rightarrow> bool \<Rightarrow> BoardState" where
  "exampleBoard cs revealedN flaggedN status first =
     \<lparr>cells = cs, width = 4, height = 2, mineCount = 1, revealedCount = revealedN,
      flaggedCount = flaggedN, gameStatus = status, firstClick = first\<rparr>"

text \<open>The generated board, all cells hidden.\<close>

definition boardGenerated :: BoardState where
  "boardGenerated =
     exampleBoard (exampleCells hidden hidden hidden hidden hidden hidden hidden hidden)
       0 0 playing True"

text \<open>After the first click at (0, 0): the flood fill has revealed six cells.\<close>

definition boardOpened :: BoardState where
  "boardOpened =
     exampleBoard (exampleCells revealed revealed revealed hidden revealed revealed revealed hidden)
       6 0 playing False"

text \<open>After revealing (0, 3) as well: every non-mine cell is revealed, the game is won.\<close>

definition boardWon :: BoardState where
  "boardWon =
     exampleBoard (exampleCells revealed revealed revealed revealed revealed revealed revealed hidden)
       7 0 won False"

text \<open>After revealing the mine at (1, 3) on the won board.\<close>

definition boardWonThenLost :: BoardState where
  "boardWonThenLost =
     exampleBoard (exampleCells revealed revealed revealed revealed revealed revealed revealed exploded)
       7 0 lost False"

text \<open>The opened board with a flag on the non-mine cell (0, 3).\<close>

definition boardWrongFlag :: BoardState where
  "boardWrongFlag =
     exampleBoard (exampleCells revealed revealed revealed flagged revealed revealed revealed hidden)
       6 1 playing False"

text \<open>The generated board with a flag on the mine at (1, 3).\<close>

definition boardMineFlagged :: BoardState where
  "boardMineFlagged =
     exampleBoard (exampleCells hidden hidden hidden hidden hidden hidden hidden flagged)
       0 1 playing True"

text \<open>The generated board with a flag on the zero-clue cell (0, 1), and that board after
  revealing (0, 0).\<close>

definition boardZeroFlagged :: BoardState where
  "boardZeroFlagged =
     exampleBoard (exampleCells hidden flagged hidden hidden hidden hidden hidden hidden)
       0 1 playing True"

definition boardZeroFlaggedOpened :: BoardState where
  "boardZeroFlaggedOpened =
     exampleBoard (exampleCells revealed flagged revealed hidden revealed revealed revealed hidden)
       5 1 playing False"

text \<open>After revealing the mine at (1, 3) on the opened board.\<close>

definition boardLost :: BoardState where
  "boardLost =
     exampleBoard (exampleCells revealed revealed revealed hidden revealed revealed revealed exploded)
       6 0 lost False"


text \<open>A second board of the same size with two mines, at (1, 2) and (1, 3), as \<^verbatim>\<open>placeMines\<close>
  lays them when the shuffle reverses the array; the board after the first click at (0, 0),
  and after a further click on the mine at (1, 3).\<close>

definition twoMineCells ::
  "CellState \<Rightarrow> CellState \<Rightarrow> CellState \<Rightarrow> CellState
   \<Rightarrow> CellState \<Rightarrow> CellState \<Rightarrow> CellState \<Rightarrow> CellState \<Rightarrow> Cell list list" where
  "twoMineCells s00 s01 s02 s03 s10 s11 s12 s13 =
     [[exampleCell 0 0 False 0 s00, exampleCell 0 1 False 1 s01,
       exampleCell 0 2 False 2 s02, exampleCell 0 3 False 2 s03],
      [exampleCell 1 0 False 0 s10, exampleCell 1 1 False 1 s11,
       exampleCell 1 2 True 0 s12, exampleCell 1 3 True 0 s13]]"

definition boardTwoMines :: BoardState where
  "boardTwoMines =
     (exampleBoard (twoMineCells hidden hidden hidden hidden hidden hidden hidden hidden)
        0 0 playing True)\<lparr>mineCount := 2\<rparr>"

definition boardTwoMinesOpened :: BoardState where
  "boardTwoMinesOpened =
     (exampleBoard (twoMineCells revealed revealed hidden hidden revealed revealed hidden hidden)
        4 0 playing False)\<lparr>mineCount := 2\<rparr>"

definition boardTwoMinesLost :: BoardState where
  "boardTwoMinesLost =
     (exampleBoard (twoMineCells revealed revealed hidden hidden revealed revealed mine exploded)
        4 0 lost False)\<lparr>mineCount := 2\<rparr>"


text \<open>The lost board after a further \<^verbatim>\<open>revealCell\<close> at (0, 3), the last cell without a
  mine.\<close>

definition boardLostThenWon :: BoardState where
  "boardLostThenWon =
     exampleBoard (exampleCells revealed revealed revealed revealed revealed revealed revealed exploded)
       7 0 won False"

text \<open>The board of one cell and one mine that \<^verbatim>\<open>generateBoard(1, 1, 1)\<close> returns, and the
  board after revealing the cell.\<close>

definition boardSingleMine :: BoardState where
  "boardSingleMine =
     \<lparr>cells = [[exampleCell 0 0 True 0 hidden]], width = 1, height = 1, mineCount = 1,
      revealedCount = 0, flaggedCount = 0, gameStatus = playing, firstClick = True\<rparr>"

definition boardSingleMineLost :: BoardState where
  "boardSingleMineLost =
     \<lparr>cells = [[exampleCell 0 0 True 0 exploded]], width = 1, height = 1, mineCount = 1,
      revealedCount = 0, flaggedCount = 0, gameStatus = lost, firstClick = False\<rparr>"

text \<open>A board of one row and four columns for which three mines are asked with the safe zone
  at (0, 0): two positions lie outside the safe zone, both are mined, and \<^verbatim>\<open>placeMines\<close>
  records \<^verbatim>\<open>mineCount\<close> 3. The board after revealing (0, 1), and after revealing (0, 0)
  as well.\<close>

definition excessCells :: "CellState \<Rightarrow> CellState \<Rightarrow> CellState \<Rightarrow> CellState \<Rightarrow> Cell list list" where
  "excessCells s0 s1 s2 s3 =
     [[exampleCell 0 0 False 0 s0, exampleCell 0 1 False 1 s1,
       exampleCell 0 2 True 0 s2, exampleCell 0 3 True 0 s3]]"

definition excessBoard :: "Cell list list \<Rightarrow> int \<Rightarrow> GameStatus \<Rightarrow> bool \<Rightarrow> BoardState" where
  "excessBoard cs revealedN status first =
     \<lparr>cells = cs, width = 4, height = 1, mineCount = 3, revealedCount = revealedN,
      flaggedCount = 0, gameStatus = status, firstClick = first\<rparr>"

definition boardExcess :: BoardState where
  "boardExcess = excessBoard (excessCells hidden hidden hidden hidden) 0 playing True"

definition boardExcessWon :: BoardState where
  "boardExcessWon = excessBoard (excessCells hidden revealed hidden hidden) 1 won False"

definition boardExcessOver :: BoardState where
  "boardExcessOver = excessBoard (excessCells revealed revealed hidden hidden) 2 won False"
section \<open>Boards reachable through the public operations\<close>




definition cellStep :: "Cell \<Rightarrow> Cell \<Rightarrow> bool" where
  "cellStep c c' \<longleftrightarrow>
     hasMine c' = hasMine c \<and> adjacentMines c' = adjacentMines c
     \<and> (state c' = revealed \<longrightarrow> state c = revealed \<or> \<not> hasMine c)"



section \<open>Auxiliary lemmas\<close>

lemma cellAt_SomeD:
  "cellAt cs p = Some cl \<Longrightarrow>
     0 \<le> row p \<and> nat (row p) < length cs \<and> 0 \<le> col p \<and> nat (col p) < length (cs ! nat (row p))
     \<and> cs ! nat (row p) ! nat (col p) = cl"
  by (simp add: cellAt_def split: if_splits)

lemma setState_twice:
  assumes "cellAt cs p = Some cl" "state cl = s"
  shows "setState (setState cs p t) p s = cs"
proof -
  note d = cellAt_SomeD[OF assms(1)]
  have "cl\<lparr>state := s\<rparr> = cl" using assms(2) by simp
  moreover have "(cs ! nat (row p))[nat (col p) := cl] = cs ! nat (row p)"
    using d by (metis list_update_id)
  ultimately show ?thesis using d by (simp add: setState_def updateCell_def)
qed

lemma cellAt_setState_same:
  "cellAt cs p = Some cl \<Longrightarrow> cellAt (setState cs p s) p = Some (cl\<lparr>state := s\<rparr>)"
  by (simp add: cellAt_def setState_def updateCell_def split: if_splits)

lemma Position_eqI: "row p = row q \<Longrightarrow> col p = col q \<Longrightarrow> p = (q :: Position)"
  by simp

lemma set_boardPositions:
  "set (boardPositions h w) = {p. 0 \<le> row p \<and> row p < h \<and> 0 \<le> col p \<and> col p < w}"
proof (rule set_eqI)
  fix p :: Position
  have m: "p \<in> set (boardPositions h w) \<longleftrightarrow> (\<exists>r<nat h. \<exists>c<nat w. p = \<lparr>row = int r, col = int c\<rparr>)"
    unfolding boardPositions_def by (auto simp: image_iff)
  have "(\<exists>r<nat h. \<exists>c<nat w. p = \<lparr>row = int r, col = int c\<rparr>)
        \<longleftrightarrow> (0 \<le> row p \<and> row p < h \<and> 0 \<le> col p \<and> col p < w)"
  proof
    assume "\<exists>r<nat h. \<exists>c<nat w. p = \<lparr>row = int r, col = int c\<rparr>"
    then obtain r c where "r < nat h" "c < nat w" "p = \<lparr>row = int r, col = int c\<rparr>" by blast
    then show "0 \<le> row p \<and> row p < h \<and> 0 \<le> col p \<and> col p < w" by (simp, linarith)
  next
    assume a: "0 \<le> row p \<and> row p < h \<and> 0 \<le> col p \<and> col p < w"
    then have "nat (row p) < nat h" "nat (col p) < nat w" by linarith+
    moreover have "p = \<lparr>row = int (nat (row p)), col = int (nat (col p))\<rparr>"
      using a by (intro Position_eqI) simp_all
    ultimately show "\<exists>r<nat h. \<exists>c<nat w. p = \<lparr>row = int r, col = int c\<rparr>" by blast
  qed
  with m show "p \<in> set (boardPositions h w) \<longleftrightarrow> p \<in> {p. 0 \<le> row p \<and> row p < h \<and> 0 \<le> col p \<and> col p < w}"
    by simp
qed

lemma isValidPosition_boardPositions:
  "p \<in> set (boardPositions (height b) (width b)) \<longleftrightarrow> isValidPosition b p"
  by (auto simp: set_boardPositions isValidPosition_def)

lemma mem_concat_grid:
  "q \<in> set (concat (map (\<lambda>r. concat (map (\<lambda>c. if P r c then (if Q r c then [f r c] else []) else []) cs)) rs))
   \<longleftrightarrow> (\<exists>r\<in>set rs. \<exists>c\<in>set cs. P r c \<and> Q r c \<and> q = f r c)"
  by (auto split: if_splits)

lemma set_getAdjacentPositions:
  "set (getAdjacentPositions b p) =
     {q. isValidPosition b q \<and> \<bar>row q - row p\<bar> \<le> 1 \<and> \<bar>col q - col p\<bar> \<le> 1 \<and> q \<noteq> p}"
proof (rule set_eqI)
  fix q :: Position
  let ?R = "isValidPosition b q \<and> \<bar>row q - row p\<bar> \<le> 1 \<and> \<bar>col q - col p\<bar> \<le> 1 \<and> q \<noteq> p"
  have m: "q \<in> set (getAdjacentPositions b p) \<longleftrightarrow>
     (\<exists>r\<in>set [row p - 1, row p, row p + 1]. \<exists>c\<in>set [col p - 1, col p, col p + 1].
        (r \<ge> 0 \<and> r < height b \<and> c \<ge> 0 \<and> c < width b) \<and> (r \<noteq> row p \<or> c \<noteq> col p)
        \<and> q = \<lparr>row = r, col = c\<rparr>)"
    unfolding getAdjacentPositions_def by (rule mem_concat_grid)
  have "q \<in> set (getAdjacentPositions b p) \<longleftrightarrow> ?R"
  proof
    assume "q \<in> set (getAdjacentPositions b p)"
    with m obtain r c where rc: "r \<in> set [row p - 1, row p, row p + 1]" "c \<in> set [col p - 1, col p, col p + 1]"
      "r \<ge> 0 \<and> r < height b \<and> c \<ge> 0 \<and> c < width b" "r \<noteq> row p \<or> c \<noteq> col p"
      "q = \<lparr>row = r, col = c\<rparr>" by blast
    from rc(5) have rq: "row q = r" "col q = c" by simp_all
    from rc(1) have "\<bar>r - row p\<bar> \<le> 1" by auto
    moreover from rc(2) have "\<bar>c - col p\<bar> \<le> 1" by auto
    moreover from rc(4) rq have "q \<noteq> p" by auto
    ultimately show ?R using rc(3) rq by (simp add: isValidPosition_def)
  next
    assume R: ?R
    then have "row q \<in> set [row p - 1, row p, row p + 1]" "col q \<in> set [col p - 1, col p, col p + 1]"
      by auto
    moreover from R have "row q \<noteq> row p \<or> col q \<noteq> col p" using Position_eqI[of q p] by blast
    moreover have "q = \<lparr>row = row q, col = col q\<rparr>" by simp
    moreover from R have "row q \<ge> 0 \<and> row q < height b \<and> col q \<ge> 0 \<and> col q < width b"
      by (simp add: isValidPosition_def)
    ultimately have "\<exists>r\<in>set [row p - 1, row p, row p + 1]. \<exists>c\<in>set [col p - 1, col p, col p + 1].
        (r \<ge> 0 \<and> r < height b \<and> c \<ge> 0 \<and> c < width b) \<and> (r \<noteq> row p \<or> c \<noteq> col p)
        \<and> q = \<lparr>row = r, col = c\<rparr>" by blast
    then show "q \<in> set (getAdjacentPositions b p)" by (simp only: m)
  qed
  then show "q \<in> set (getAdjacentPositions b p) \<longleftrightarrow>
      q \<in> {q. isValidPosition b q \<and> \<bar>row q - row p\<bar> \<le> 1 \<and> \<bar>col q - col p\<bar> \<le> 1 \<and> q \<noteq> p}" by simp
qed

lemma wellFormed_cellAt:
  assumes "wellFormed b" "isValidPosition b p"
  shows "\<exists>cl. cellAt (cells b) p = Some cl"
proof -
  from assms have r: "0 \<le> row p" "nat (row p) < length (cells b)" and c: "0 \<le> col p" "nat (col p) < nat (width b)"
    by (auto simp: wellFormed_def isValidPosition_def)
  from r assms(1) have "length (cells b ! nat (row p)) = nat (width b)"
    by (simp add: wellFormed_def)
  with r c show ?thesis by (simp add: cellAt_def)
qed

lemma those_map_Some:
  "(\<And>x. x \<in> set xs \<Longrightarrow> \<exists>y. f x = Some y) \<Longrightarrow> those (map f xs) = Some (map (\<lambda>x. the (f x)) xs)"
  by (induction xs) (auto split: option.splits)

lemma wellFormed_cellsAt:
  assumes "wellFormed b" "\<And>p. p \<in> set ps \<Longrightarrow> isValidPosition b p"
  shows "cellsAt b ps = Some (map (\<lambda>p. the (cellAt (cells b) p)) ps)"
  unfolding cellsAt_def using assms by (intro those_map_Some) (auto dest: wellFormed_cellAt)

lemma wellFormed_cellsAt_adjacent:
  "wellFormed b \<Longrightarrow> cellsAt b (getAdjacentPositions b p) = Some (map (\<lambda>p. the (cellAt (cells b) p)) (getAdjacentPositions b p))"
  by (rule wellFormed_cellsAt) (auto simp: set_getAdjacentPositions)

lemma findLogicalMovesLoop_result:
  "findLogicalMovesLoop board ps acc = Some ms \<Longrightarrow> ms = acc"
  by (induction ps) (auto split: option.splits if_splits simp: Let_def)

lemma findLogicalMovesLoop_wellFormed:
  "wellFormed board \<Longrightarrow> (\<And>p. p \<in> set ps \<Longrightarrow> isValidPosition board p) \<Longrightarrow>
   findLogicalMovesLoop board ps acc = Some acc"
proof (induction ps)
  case Nil
  then show ?case by simp
next
  case (Cons p ps)
  from Cons.prems obtain cl where "cellAt (cells board) p = Some cl"
    using wellFormed_cellAt[of board p] by auto
  moreover have "findLogicalMovesLoop board ps acc = Some acc" using Cons by simp
  ultimately show ?case using Cons.prems(1)
    by (simp add: wellFormed_cellsAt_adjacent Let_def)
qed

lemma floor_base: "\<lfloor>real_of_int (baseMines (difficultySettings d)) * (7 / 10)\<rfloor>
   = (case d of beginner \<Rightarrow> 7 | intermediate \<Rightarrow> 28 | expert \<Rightarrow> 69)"
  by (cases d) simp_all

lemma adj_winRate:
  "(if real_of_int (gamesWon s) / real_of_int (gamesPlayed s) > 8 / 10 then (0::int) + 3
    else if real_of_int (gamesWon s) / real_of_int (gamesPlayed s) > 6 / 10 then 0 + 1
    else if real_of_int (gamesWon s) / real_of_int (gamesPlayed s) < 3 / 10 then 0 - 3
    else if real_of_int (gamesWon s) / real_of_int (gamesPlayed s) < 5 / 10 then 0 - 1
    else 0) = winRateAdjustment s"
  by (simp add: winRateAdjustment_def Let_def)

lemma adj_trend:
  "(if fst (analyzeRecentPerformance s) = improving \<and> snd (analyzeRecentPerformance s) > 7 / 10 then x + 1
    else if fst (analyzeRecentPerformance s) = declining \<and> snd (analyzeRecentPerformance s) > 7 / 10 then x - 1
    else x) = x + recentTrendAdjustment s"
  by (simp add: analyzeRecentPerformance_def recentTrendAdjustment_def)

lemma adj_streak:
  "(if currentStreak s \<ge> 5 then x + 2 else if currentStreak s \<le> - 3 then x - 2 else x)
   = x + streakBonusAdjustment s"
  by (simp add: streakBonusAdjustment_def)

lemma adj_hints:
  "(if real_of_int (hintsUsed s) / real_of_int (gamesPlayed s) > 3 then x - 1 else x)
   = x + hintOveruseAdjustment s"
  by (simp add: hintOveruseAdjustment_def)

lemma calculateMineCount_unfold:
  assumes "gamesPlayed s \<ge> 3"
  shows "calculateMineCount s =
     max \<lfloor>real_of_int (baseMines (difficultySettings (preferredDifficulty s))) * (7 / 10)\<rfloor>
         (min (maxMines (difficultySettings (preferredDifficulty s)))
              (baseMines (difficultySettings (preferredDifficulty s))
               + (winRateAdjustment s + recentTrendAdjustment s
                  + streakBonusAdjustment s + hintOveruseAdjustment s)))"
proof -
  from assms have "\<not> gamesPlayed s < 3" by simp
  then show ?thesis
    unfolding calculateMineCount_def Let_def
    by (simp only: if_False adj_winRate adj_trend adj_streak adj_hints)
qed

lemma cellAt_updateCell:
  assumes "cellAt cs p = Some cl"
  shows "cellAt (updateCell cs p f) q = (if q = p then Some (f cl) else cellAt cs q)"
proof -
  note d = cellAt_SomeD[OF assms]
  show ?thesis
  proof (cases "q = p")
    case True
    with d show ?thesis by (simp add: cellAt_def updateCell_def)
  next
    case False
    show ?thesis
    proof (cases "0 \<le> row q \<and> 0 \<le> col q")
      case nonneg: True
      from False have "row q \<noteq> row p \<or> col q \<noteq> col p" using Position_eqI[of q p] by blast
      with nonneg d have ne: "nat (row q) \<noteq> nat (row p) \<or> nat (col q) \<noteq> nat (col p)" by auto
      show ?thesis
      proof (cases "nat (row q) = nat (row p)")
        case True
        with ne have "nat (col q) \<noteq> nat (col p)" by simp
        with True d False show ?thesis by (simp add: cellAt_def updateCell_def)
      next
        case r: False
        with d False show ?thesis by (simp add: cellAt_def updateCell_def)
      qed
    next
      case False
      then show ?thesis using \<open>q \<noteq> p\<close> by (auto simp: cellAt_def)
    qed
  qed
qed

lemma map_length_updateCell: "map length (updateCell cs p f) = map length cs"
proof (cases "nat (row p) < length cs")
  case True
  then show ?thesis by (simp add: updateCell_def map_update list_update_same_conv)
next
  case False
  then show ?thesis by (simp add: updateCell_def list_update_beyond not_less)
qed

lemma wellFormed_alt:
  "wellFormed b \<longleftrightarrow> map length (cells b) = replicate (nat (height b)) (nat (width b))"
proof
  assume "wellFormed b"
  then have "length (map length (cells b)) = nat (height b)"
    and "\<And>y. y \<in> set (map length (cells b)) \<Longrightarrow> y = nat (width b)"
    unfolding wellFormed_def by auto
  then show "map length (cells b) = replicate (nat (height b)) (nat (width b))"
    by (rule replicate_eqI)
next
  assume a: "map length (cells b) = replicate (nat (height b)) (nat (width b))"
  then have "length (map length (cells b)) = nat (height b)" by simp
  moreover have "\<And>r. r \<in> set (cells b) \<Longrightarrow> length r = nat (width b)"
  proof -
    fix r assume "r \<in> set (cells b)"
    then have "length r \<in> set (map length (cells b))" by simp
    with a show "length r = nat (width b)" by (simp split: if_splits)
  qed
  ultimately show "wellFormed b" by (simp add: wellFormed_def)
qed

lemma wellFormed_cong:
  "wellFormed b \<Longrightarrow> map length (cells b') = map length (cells b) \<Longrightarrow> width b' = width b \<Longrightarrow>
   height b' = height b \<Longrightarrow> wellFormed b'"
  by (simp add: wellFormed_alt)

lemma cellAt_setState:
  "cellAt cs p = Some cl \<Longrightarrow>
   cellAt (setState cs p s) q = (if q = p then Some (cl\<lparr>state := s\<rparr>) else cellAt cs q)"
  unfolding setState_def by (rule cellAt_updateCell)

lemma cellAt_setAdjacentMines:
  "cellAt cs p = Some cl \<Longrightarrow>
   cellAt (setAdjacentMines cs p n) q = (if q = p then Some (cl\<lparr>adjacentMines := n\<rparr>) else cellAt cs q)"
  unfolding setAdjacentMines_def by (rule cellAt_updateCell)

lemma map_length_setState: "map length (setState cs p s) = map length cs"
  unfolding setState_def by (rule map_length_updateCell)

lemma map_length_setAdjacentMines: "map length (setAdjacentMines cs p n) = map length cs"
  unfolding setAdjacentMines_def by (rule map_length_updateCell)

lemma setHasMine_Some:
  "cellAt cs p = Some cl \<Longrightarrow> setHasMine cs p = Some (updateCell cs p (\<lambda>c. c\<lparr>hasMine := True\<rparr>))"
  by (simp add: setHasMine_def)

lemma wellFormed_cellAt_iff:
  assumes "wellFormed b"
  shows "(\<exists>cl. cellAt (cells b) p = Some cl) \<longleftrightarrow> isValidPosition b p"
proof
  assume "\<exists>cl. cellAt (cells b) p = Some cl"
  then obtain cl where "cellAt (cells b) p = Some cl" ..
  note d = cellAt_SomeD[OF this]
  from d assms have "length (cells b ! nat (row p)) = nat (width b)" by (simp add: wellFormed_def)
  with d assms show "isValidPosition b p" by (simp add: isValidPosition_def wellFormed_def)
next
  assume "isValidPosition b p"
  with assms show "\<exists>cl. cellAt (cells b) p = Some cl" by (rule wellFormed_cellAt)
qed

lemma hiddenZero_hiddenSafe: "hiddenZero b q \<Longrightarrow> hiddenSafe b q"
  by (auto simp: hiddenZero_def hiddenSafe_def split: option.splits)

lemma hiddenSafe_reveal:
  assumes "\<And>q. cellAt (cells nb) q = map_option (revealedAt R q) (cellAt (cells b) q)"
  shows "hiddenSafe nb q \<longleftrightarrow> hiddenSafe b q \<and> q \<notin> R"
  unfolding hiddenSafe_def assms by (auto simp: revealedAt_def split: option.splits)

lemma hiddenZero_reveal:
  assumes "\<And>q. cellAt (cells nb) q = map_option (revealedAt R q) (cellAt (cells b) q)"
  shows "hiddenZero nb q \<longleftrightarrow> hiddenZero b q \<and> q \<notin> R"
  unfolding hiddenZero_def assms by (auto simp: revealedAt_def split: option.splits)

lemma revealedAt_compose:
  "map_option (revealedAt A q) (map_option (revealedAt R q) x) = map_option (revealedAt (R \<union> A) q) x"
  by (cases x) (auto simp: revealedAt_def)

lemma revealedAt_empty: "map_option (revealedAt {} q) x = x"
  by (cases x) (simp_all add: revealedAt_def)

lemma revealedAt_notin: "q \<notin> R \<Longrightarrow> map_option (revealedAt R q) x = x"
  by (cases x) (simp_all add: revealedAt_def)

lemma revealedAt_in: "q \<in> R \<Longrightarrow> map_option (revealedAt R q) (Some c) = Some (c\<lparr>state := revealed\<rparr>)"
  by (simp add: revealedAt_def)

lemma revealNeighbours_effect:
  assumes "\<And>a. a \<in> set as \<Longrightarrow> \<exists>cl. cellAt (cells nb) a = Some cl"
  shows "\<exists>nb' st'. revealNeighbours as (nb, st) = Some (nb', st')
     \<and> (\<forall>q. cellAt (cells nb') q
            = map_option (revealedAt {a \<in> set as. hiddenSafe nb a} q) (cellAt (cells nb) q))
     \<and> set st' = set st \<union> {a \<in> set as. hiddenZero nb a}
     \<and> map length (cells nb') = map length (cells nb)
     \<and> (\<exists>cs n. nb' = nb\<lparr>cells := cs, revealedCount := n\<rparr>)"
  using assms
proof (induction as arbitrary: nb st)
  case Nil
  have "\<And>q. cellAt (cells nb) q = map_option (revealedAt {} q) (cellAt (cells nb) q)"
    by (simp add: revealedAt_empty)
  moreover have "\<exists>cs n. nb = nb\<lparr>cells := cs, revealedCount := n\<rparr>"
    by (rule exI[of _ "cells nb"], rule exI[of _ "revealedCount nb"]) simp
  ultimately show ?case by simp
next
  case (Cons a as)
  from Cons.prems obtain cl where cl: "cellAt (cells nb) a = Some cl" by auto
  show ?case
  proof (cases "state cl = hidden \<and> \<not> hasMine cl")
    case False
    then have na: "\<not> hiddenSafe nb a" "\<not> hiddenZero nb a"
      using cl by (auto simp: hiddenSafe_def hiddenZero_def)
    from Cons.prems have "\<And>x. x \<in> set as \<Longrightarrow> \<exists>cl. cellAt (cells nb) x = Some cl" by simp
    from Cons.IH[OF this, of st] obtain nb' st' where r:
      "revealNeighbours as (nb, st) = Some (nb', st')"
      "\<forall>q. cellAt (cells nb') q = map_option (revealedAt {a \<in> set as. hiddenSafe nb a} q) (cellAt (cells nb) q)"
      "set st' = set st \<union> {a \<in> set as. hiddenZero nb a}"
      "map length (cells nb') = map length (cells nb)"
      "\<exists>cs n. nb' = nb\<lparr>cells := cs, revealedCount := n\<rparr>" by blast
    have s1: "{x \<in> set (a # as). hiddenSafe nb x} = {x \<in> set as. hiddenSafe nb x}"
      using na by auto
    have s2: "{x \<in> set (a # as). hiddenZero nb x} = {x \<in> set as. hiddenZero nb x}"
      using na by auto
    have "revealNeighbours (a # as) (nb, st) = Some (nb', st')"
      using cl False r(1) by auto
    with r show ?thesis unfolding s1 s2 by blast
  next
    case True
    let ?nb1 = "nb\<lparr>cells := setState (cells nb) a revealed, revealedCount := revealedCount nb + 1\<rparr>"
    let ?st1 = "if adjacentMines cl = 0 then a # st else st"
    have c1: "\<And>q. cellAt (cells ?nb1) q = map_option (revealedAt {a} q) (cellAt (cells nb) q)"
      using cl by (simp add: cellAt_setState revealedAt_notin) (simp add: revealedAt_def)
    have ex1: "\<And>x. x \<in> set as \<Longrightarrow> \<exists>cl. cellAt (cells ?nb1) x = Some cl"
    proof -
      fix x assume "x \<in> set as"
      with Cons.prems obtain c where "cellAt (cells nb) x = Some c" by auto
      then show "\<exists>cl. cellAt (cells ?nb1) x = Some cl" unfolding c1 by simp
    qed
    from Cons.IH[OF ex1, of ?st1] obtain nb' st' where r:
      "revealNeighbours as (?nb1, ?st1) = Some (nb', st')"
      "\<forall>q. cellAt (cells nb') q = map_option (revealedAt {x \<in> set as. hiddenSafe ?nb1 x} q) (cellAt (cells ?nb1) q)"
      "set st' = set ?st1 \<union> {x \<in> set as. hiddenZero ?nb1 x}"
      "map length (cells nb') = map length (cells ?nb1)"
      "\<exists>cs n. nb' = ?nb1\<lparr>cells := cs, revealedCount := n\<rparr>" by blast
    have hs: "\<And>x. hiddenSafe ?nb1 x \<longleftrightarrow> hiddenSafe nb x \<and> x \<notin> {a}"
      by (rule hiddenSafe_reveal) (rule c1)
    have hz: "\<And>x. hiddenZero ?nb1 x \<longleftrightarrow> hiddenZero nb x \<and> x \<notin> {a}"
      by (rule hiddenZero_reveal) (rule c1)
    have ha: "hiddenSafe nb a" using cl True by (simp add: hiddenSafe_def)
    have hza: "hiddenZero nb a \<longleftrightarrow> adjacentMines cl = 0" using cl True by (simp add: hiddenZero_def)
    have s1: "{a} \<union> {x \<in> set as. hiddenSafe ?nb1 x} = {x \<in> set (a # as). hiddenSafe nb x}"
      using ha unfolding hs by auto
    have s2: "set ?st1 \<union> {x \<in> set as. hiddenZero ?nb1 x} = set st \<union> {x \<in> set (a # as). hiddenZero nb x}"
      using hza unfolding hz by auto
    have run: "revealNeighbours (a # as) (nb, st) = Some (nb', st')"
      using cl True r(1) by simp
    have cells: "\<forall>q. cellAt (cells nb') q
        = map_option (revealedAt {x \<in> set (a # as). hiddenSafe nb x} q) (cellAt (cells nb) q)"
      using r(2) unfolding c1 revealedAt_compose s1 .
    have len: "map length (cells nb') = map length (cells nb)"
      using r(4) by (simp add: map_length_setState)
    from r(5) obtain cs n where "nb' = ?nb1\<lparr>cells := cs, revealedCount := n\<rparr>" by blast
    then have "nb' = nb\<lparr>cells := cs, revealedCount := n\<rparr>" by simp
    then have frame: "\<exists>cs n. nb' = nb\<lparr>cells := cs, revealedCount := n\<rparr>" by blast
    from run cells r(3) len frame show ?thesis unfolding s2 by blast
  qed
qed

lemma set_getAdjacentPositions_adjacent:
  "set (getAdjacentPositions b p) = {q. isValidPosition b q \<and> adjacent p q}"
  by (simp add: set_getAdjacentPositions adjacent_def)

lemma zeroRegion_refl: "p \<in> zeroRegion b p"
  by (simp add: zeroRegion_def)

lemma zeroRegion_hiddenZero:
  assumes "hiddenZero b p" "z \<in> zeroRegion b p"
  shows "hiddenZero b z"
proof -
  from assms(2) have "(p, z) \<in> (zeroStep b)\<^sup>*" by (simp add: zeroRegion_def)
  then show ?thesis
    by (induction rule: rtrancl_induct) (use assms(1) in \<open>auto simp: zeroStep_def\<close>)
qed

lemma zeroRegion_step:
  assumes "hiddenZero b p" "z \<in> zeroRegion b p" "adjacent z q" "hiddenZero b q"
  shows "q \<in> zeroRegion b p"
proof -
  from assms(1,2) have "hiddenZero b z" by (rule zeroRegion_hiddenZero)
  with assms(3,4) have "(z, q) \<in> zeroStep b" by (simp add: zeroStep_def)
  moreover from assms(2) have "(p, z) \<in> (zeroStep b)\<^sup>*" by (simp add: zeroRegion_def)
  ultimately show ?thesis unfolding zeroRegion_def by (simp add: rtrancl.rtrancl_into_rtrancl)
qed

lemma floodInvD:
  assumes "floodInv b p R nb toReveal visited"
  shows "width nb = width b" "height nb = height b" "map length (cells nb) = map length (cells b)"
    "\<And>q. cellAt (cells nb) q = map_option (revealedAt R q) (cellAt (cells b) q)"
    "p \<in> R" "\<And>q. q \<in> R \<Longrightarrow> hiddenSafe b q"
    "visited \<subseteq> zeroRegion b p" "set toReveal \<subseteq> zeroRegion b p"
    "\<And>z q. z \<in> visited \<Longrightarrow> adjacent z q \<Longrightarrow> hiddenSafe b q \<Longrightarrow> q \<in> R"
    "\<And>q. q \<in> R \<Longrightarrow> hiddenZero b q \<Longrightarrow> q \<in> visited \<union> set toReveal"
    "\<And>q. q \<in> R \<Longrightarrow> q = p \<or> (\<exists>z\<in>visited. adjacent z q)"
  using assms unfolding floodInv_def by blast+

lemma floodInvI:
  assumes "width nb = width b" "height nb = height b" "map length (cells nb) = map length (cells b)"
    "\<And>q. cellAt (cells nb) q = map_option (revealedAt R q) (cellAt (cells b) q)"
    "p \<in> R" "\<And>q. q \<in> R \<Longrightarrow> hiddenSafe b q"
    "visited \<subseteq> zeroRegion b p" "set toReveal \<subseteq> zeroRegion b p"
    "\<And>z q. z \<in> visited \<Longrightarrow> adjacent z q \<Longrightarrow> hiddenSafe b q \<Longrightarrow> q \<in> R"
    "\<And>q. q \<in> R \<Longrightarrow> hiddenZero b q \<Longrightarrow> q \<in> visited \<union> set toReveal"
    "\<And>q. q \<in> R \<Longrightarrow> q = p \<or> (\<exists>z\<in>visited. adjacent z q)"
  shows "floodInv b p R nb toReveal visited"
  unfolding floodInv_def using assms by blast

lemma floodInv_final:
  assumes hz: "hiddenZero b p" and inv: "floodInv b p R nb [] visited"
  shows "R = floodRegion b p"
proof -
  note pR = floodInvD(5)[OF inv] and safe = floodInvD(6)[OF inv] and vis = floodInvD(7)[OF inv]
    and closed = floodInvD(9)[OF inv] and origin = floodInvD(11)[OF inv]
  have fin: "\<And>q. q \<in> R \<Longrightarrow> hiddenZero b q \<Longrightarrow> q \<in> visited"
    using floodInvD(10)[OF inv] by simp
  have reg: "z \<in> visited \<and> z \<in> R" if "z \<in> zeroRegion b p" for z
  proof -
    from that have "(p, z) \<in> (zeroStep b)\<^sup>*" by (simp add: zeroRegion_def)
    then show ?thesis
    proof (induction rule: rtrancl_induct)
      case base
      from pR hz show ?case by (simp add: fin)
    next
      case (step y z)
      from step.hyps(2) have a: "adjacent y z" and z: "hiddenZero b z" by (auto simp: zeroStep_def)
      from step.IH a z have "z \<in> R" by (auto intro: closed hiddenZero_hiddenSafe)
      with z show ?case by (simp add: fin)
    qed
  qed
  show ?thesis
  proof (rule set_eqI)
    fix q
    show "q \<in> R \<longleftrightarrow> q \<in> floodRegion b p"
    proof
      assume q: "q \<in> R"
      from origin[OF q] show "q \<in> floodRegion b p"
      proof
        assume "q = p"
        then show ?thesis by (simp add: floodRegion_def zeroRegion_refl)
      next
        assume "\<exists>z\<in>visited. adjacent z q"
        then obtain z where "z \<in> visited" "adjacent z q" by blast
        with vis safe[OF q] show ?thesis unfolding floodRegion_def by blast
      qed
    next
      assume "q \<in> floodRegion b p"
      then consider "q \<in> zeroRegion b p"
        | z where "hiddenSafe b q" "z \<in> zeroRegion b p" "adjacent z q"
        unfolding floodRegion_def by blast
      then show "q \<in> R"
      proof cases
        case 1
        then show ?thesis using reg by blast
      next
        case 2
        from reg[OF 2(2)] have "z \<in> visited" by simp
        then show ?thesis using 2(3,1) by (rule closed)
      qed
    qed
  qed
qed

lemma floodInv_step:
  assumes wf: "wellFormed b" and hz: "hiddenZero b p"
    and inv: "floodInv b p R nb (current # toReveal) visited"
    and nv: "current \<notin> visited"
  shows "\<exists>nb' st' R'. revealNeighbours (getAdjacentPositions nb current) (nb, toReveal) = Some (nb', st')
     \<and> floodInv b p R' nb' st' (insert current visited)
     \<and> (\<exists>cs n. nb' = nb\<lparr>cells := cs, revealedCount := n\<rparr>)"
proof -
  note w = floodInvD(1)[OF inv] and h = floodInvD(2)[OF inv] and len = floodInvD(3)[OF inv]
    and cells = floodInvD(4)[OF inv] and pR = floodInvD(5)[OF inv] and safe = floodInvD(6)[OF inv]
    and vis = floodInvD(7)[OF inv] and stk = floodInvD(8)[OF inv] and closed = floodInvD(9)[OF inv]
    and pending = floodInvD(10)[OF inv] and origin = floodInvD(11)[OF inv]
  let ?nbrs = "getAdjacentPositions nb current"
  have valid: "isValidPosition nb q \<longleftrightarrow> isValidPosition b q" for q
    by (simp add: isValidPosition_def w h)
  have nbrs: "set ?nbrs = {q. isValidPosition b q \<and> adjacent current q}"
    by (simp add: set_getAdjacentPositions_adjacent valid)
  have ex: "\<exists>cl. cellAt (cells nb) a = Some cl" if "a \<in> set ?nbrs" for a
  proof -
    from that have "isValidPosition b a" by (simp add: nbrs)
    with wf obtain c where "cellAt (cells b) a = Some c" using wellFormed_cellAt by blast
    then show ?thesis by (simp add: cells)
  qed
  from revealNeighbours_effect[of ?nbrs nb toReveal, OF ex]
  obtain nb' st' where r:
    "revealNeighbours ?nbrs (nb, toReveal) = Some (nb', st')"
    "\<And>q. cellAt (cells nb') q
            = map_option (revealedAt {a \<in> set ?nbrs. hiddenSafe nb a} q) (cellAt (cells nb) q)"
    "set st' = set toReveal \<union> {a \<in> set ?nbrs. hiddenZero nb a}"
    "map length (cells nb') = map length (cells nb)"
    "\<exists>cs n. nb' = nb\<lparr>cells := cs, revealedCount := n\<rparr>" by blast
  let ?A = "{a \<in> set ?nbrs. hiddenSafe nb a}"
  let ?R = "R \<union> ?A"
  have hs: "hiddenSafe nb q \<longleftrightarrow> hiddenSafe b q \<and> q \<notin> R" for q
    by (rule hiddenSafe_reveal) (rule cells)
  have hzr: "hiddenZero nb q \<longleftrightarrow> hiddenZero b q \<and> q \<notin> R" for q
    by (rule hiddenZero_reveal) (rule cells)
  have cur: "current \<in> zeroRegion b p" using stk by simp
  have safe_valid: "isValidPosition b q" if "hiddenSafe b q" for q
  proof -
    from that obtain c where "cellAt (cells b) q = Some c"
      by (auto simp: hiddenSafe_def split: option.splits)
    with wf show ?thesis using wellFormed_cellAt_iff by blast
  qed
  from r(5) obtain cs n where fr: "nb' = nb\<lparr>cells := cs, revealedCount := n\<rparr>" by blast
  have "floodInv b p ?R nb' st' (insert current visited)"
  proof (rule floodInvI)
    show "width nb' = width b" using fr w by simp
    show "height nb' = height b" using fr h by simp
    show "map length (cells nb') = map length (cells b)" using r(4) len by simp
    show "cellAt (cells nb') q = map_option (revealedAt ?R q) (cellAt (cells b) q)" for q
      unfolding r(2) cells revealedAt_compose ..
    show "p \<in> ?R" using pR by simp
    show "hiddenSafe b q" if "q \<in> ?R" for q
      using that safe hs by blast
    show "insert current visited \<subseteq> zeroRegion b p" using cur vis by simp
    show "set st' \<subseteq> zeroRegion b p"
    proof
      fix q assume "q \<in> set st'"
      then consider "q \<in> set toReveal" | "q \<in> set ?nbrs" "hiddenZero nb q"
        unfolding r(3) by blast
      then show "q \<in> zeroRegion b p"
      proof cases
        case 1
        then show ?thesis using stk by auto
      next
        case 2
        from 2(1) have "adjacent current q" by (simp add: nbrs)
        moreover from 2(2) have "hiddenZero b q" by (simp add: hzr)
        ultimately show ?thesis using zeroRegion_step[OF hz cur] by blast
      qed
    qed
    show "q \<in> ?R" if "z \<in> insert current visited" "adjacent z q" "hiddenSafe b q" for z q
    proof (cases "z \<in> visited")
      case True
      then show ?thesis using closed that(2,3) by blast
    next
      case False
      with that(1) have z: "z = current" by simp
      show ?thesis
      proof (cases "q \<in> R")
        case True
        then show ?thesis by simp
      next
        case False
        from that(3) have "isValidPosition b q" by (rule safe_valid)
        with that(2) z have "q \<in> set ?nbrs" by (simp add: nbrs)
        moreover from that(3) False have "hiddenSafe nb q" by (simp add: hs)
        ultimately show ?thesis by simp
      qed
    qed
    show "q \<in> insert current visited \<union> set st'" if "q \<in> ?R" "hiddenZero b q" for q
    proof (cases "q \<in> R")
      case True
      from pending[OF True that(2)] have "q \<in> visited \<union> set (current # toReveal)" .
      then show ?thesis unfolding r(3) by auto
    next
      case False
      with that(1) have "q \<in> set ?nbrs" by simp
      moreover from that(2) False have "hiddenZero nb q" by (simp add: hzr)
      ultimately show ?thesis unfolding r(3) by simp
    qed
    show "q = p \<or> (\<exists>z\<in>insert current visited. adjacent z q)" if "q \<in> ?R" for q
    proof (cases "q \<in> R")
      case True
      then show ?thesis using origin by blast
    next
      case False
      with that have "q \<in> set ?nbrs" by simp
      then have "adjacent current q" by (simp add: nbrs)
      then show ?thesis by blast
    qed
  qed
  with r(1) r(5) show ?thesis by blast
qed

lemma floodFill_correct:
  assumes wf: "wellFormed b" and hz: "hiddenZero b p"
  shows "floodInv b p R nb toReveal visited \<Longrightarrow>
     \<exists>nb'. floodFill nb toReveal visited = Some nb'
       \<and> (\<forall>q. cellAt (cells nb') q = map_option (revealedAt (floodRegion b p) q) (cellAt (cells b) q))
       \<and> map length (cells nb') = map length (cells b)
       \<and> (\<exists>cs n. nb' = nb\<lparr>cells := cs, revealedCount := n\<rparr>)"
proof (induction nb toReveal visited arbitrary: R rule: floodFill.induct)
  case (1 nb visited)
  from floodInv_final[OF hz "1.prems"] have R: "R = floodRegion b p" .
  have "\<exists>cs n. nb = nb\<lparr>cells := cs, revealedCount := n\<rparr>"
    by (rule exI[of _ "cells nb"], rule exI[of _ "revealedCount nb"]) simp
  with floodInvD(3,4)[OF "1.prems"] show ?case unfolding R by simp
next
  case (2 nb current toReveal visited)
  show ?case
  proof (cases "current \<in> visited")
    case True
    have "floodInv b p R nb toReveal visited"
    proof (rule floodInvI)
      show "q \<in> visited \<union> set toReveal" if "q \<in> R" "hiddenZero b q" for q
        using floodInvD(10)[OF "2.prems" that] True by auto
      show "set toReveal \<subseteq> zeroRegion b p" using floodInvD(8)[OF "2.prems"] by simp
    qed (use floodInvD[OF "2.prems"] in blast)+
    from "2.IH"(1)[OF True this] True show ?thesis by simp
  next
    case False
    from floodInv_step[OF wf hz "2.prems" False] obtain nb1 st1 R1 where
      s: "revealNeighbours (getAdjacentPositions nb current) (nb, toReveal) = Some (nb1, st1)"
         "floodInv b p R1 nb1 st1 (insert current visited)"
         "\<exists>cs n. nb1 = nb\<lparr>cells := cs, revealedCount := n\<rparr>" by blast
    from "2.IH"(2)[OF False s(1) refl s(2)] obtain nb' where
      f: "floodFill nb1 st1 (insert current visited) = Some nb'"
         "\<forall>q. cellAt (cells nb') q = map_option (revealedAt (floodRegion b p) q) (cellAt (cells b) q)"
         "map length (cells nb') = map length (cells b)"
         "\<exists>cs n. nb' = nb1\<lparr>cells := cs, revealedCount := n\<rparr>" by blast
    from s(3) obtain cs1 n1 where "nb1 = nb\<lparr>cells := cs1, revealedCount := n1\<rparr>" by blast
    moreover from f(4) obtain cs2 n2 where "nb' = nb1\<lparr>cells := cs2, revealedCount := n2\<rparr>" by blast
    ultimately have "nb' = nb\<lparr>cells := cs2, revealedCount := n2\<rparr>" by simp
    then have "\<exists>cs n. nb' = nb\<lparr>cells := cs, revealedCount := n\<rparr>" by blast
    moreover have "floodFill nb (current # toReveal) visited = Some nb'"
      using False s(1) f(1) by simp
    ultimately show ?thesis using f(2,3) by blast
  qed
qed

lemma markMine_compose:
  "map_option (markMine S q) (map_option (markMine {a} q) x) = map_option (markMine (insert a S) q) x"
  by (cases x) (auto simp: markMine_def)

lemma markMine_empty: "map_option (markMine {} q) x = x"
  by (cases x) (simp_all add: markMine_def)

lemma revealAllMines_effect:
  assumes "\<And>a. a \<in> set ps \<Longrightarrow> \<exists>cl. cellAt cs a = Some cl"
  shows "\<exists>cs'. revealAllMines ps cs = Some cs'
     \<and> (\<forall>q. cellAt cs' q = map_option (markMine (set ps) q) (cellAt cs q))
     \<and> map length cs' = map length cs"
  using assms
proof (induction ps arbitrary: cs)
  case Nil
  then show ?case by (simp add: markMine_empty)
next
  case (Cons a ps)
  from Cons.prems obtain cl where cl: "cellAt cs a = Some cl" by auto
  let ?cs1 = "if hasMine cl \<and> state cl \<noteq> exploded then setState cs a mine else cs"
  have c1: "cellAt ?cs1 q = map_option (markMine {a} q) (cellAt cs q)" for q
  proof (cases "q = a")
    case True
    then show ?thesis using cl by (simp add: cellAt_setState markMine_def)
  next
    case False
    then have "map_option (markMine {a} q) (cellAt cs q) = cellAt cs q"
      by (cases "cellAt cs q") (simp_all add: markMine_def)
    with False show ?thesis using cl by (simp add: cellAt_setState)
  qed
  have ex1: "\<exists>cl. cellAt ?cs1 x = Some cl" if "x \<in> set ps" for x
  proof -
    from that Cons.prems obtain c where "cellAt cs x = Some c" by auto
    then show ?thesis unfolding c1 by simp
  qed
  from Cons.IH[OF ex1] obtain cs' where r:
    "revealAllMines ps ?cs1 = Some cs'"
    "\<And>q. cellAt cs' q = map_option (markMine (set ps) q) (cellAt ?cs1 q)"
    "map length cs' = map length ?cs1" by blast
  have "revealAllMines (a # ps) cs = Some cs'" using cl r(1) by simp
  moreover have "\<forall>q. cellAt cs' q = map_option (markMine (set (a # ps)) q) (cellAt cs q)"
    unfolding r(2) c1 markMine_compose by simp
  moreover have "map length cs' = map length cs" using r(3) by (simp add: map_length_setState)
  ultimately show ?case by blast
qed

lemma revealAllMines_board:
  assumes wf: "wellFormed b" and cl: "cellAt (cells b) p = Some cl"
  shows "\<exists>cs'. revealAllMines (boardPositions (height b) (width b)) (setState (cells b) p exploded) = Some cs'
     \<and> (\<forall>q. cellAt cs' q = map_option (shownMine p q) (cellAt (cells b) q))
     \<and> map length cs' = map length (cells b)"
proof -
  let ?ps = "boardPositions (height b) (width b)"
  let ?cs0 = "setState (cells b) p exploded"
  have c0: "cellAt ?cs0 q = (if q = p then Some (cl\<lparr>state := exploded\<rparr>) else cellAt (cells b) q)" for q
    using cl by (rule cellAt_setState)
  have ex: "\<exists>cl. cellAt ?cs0 a = Some cl" if "a \<in> set ?ps" for a
  proof -
    from that have "isValidPosition b a" by (simp add: isValidPosition_boardPositions)
    with wf obtain c where "cellAt (cells b) a = Some c" using wellFormed_cellAt by blast
    then show ?thesis by (simp add: c0)
  qed
  from revealAllMines_effect[OF ex] obtain cs' where r:
    "revealAllMines ?ps ?cs0 = Some cs'"
    "\<And>q. cellAt cs' q = map_option (markMine (set ?ps) q) (cellAt ?cs0 q)"
    "map length cs' = map length ?cs0" by blast
  have "cellAt cs' q = map_option (shownMine p q) (cellAt (cells b) q)" for q
  proof (cases "cellAt (cells b) q")
    case None
    with cl have "q \<noteq> p" by auto
    with None show ?thesis by (simp add: r(2) c0)
  next
    case (Some c)
    with wf have "isValidPosition b q" using wellFormed_cellAt_iff by blast
    then have m: "q \<in> set ?ps" by (simp add: isValidPosition_boardPositions)
    show ?thesis
    proof (cases "q = p")
      case True
      with m show ?thesis using cl by (simp add: r(2) c0 markMine_def shownMine_def)
    next
      case False
      with m Some show ?thesis by (simp add: r(2) c0 markMine_def shownMine_def)
    qed
  qed
  with r(1) r(3) show ?thesis by (simp add: map_length_setState)
qed

lemma revealStep_refl: "revealStep b (cells b)"
  by (simp add: revealStep_def)

lemma revealStep_revealedAt:
  assumes "\<And>q. cellAt cs q = map_option (revealedAt R q) (cellAt (cells b) q)"
    and "\<And>q. q \<in> R \<Longrightarrow> hiddenSafe b q"
  shows "revealStep b cs"
  unfolding revealStep_def
proof
  fix q
  show "cellAt cs q = cellAt (cells b) q
     \<or> (hiddenSafe b q \<and> cellAt cs q = map_option (\<lambda>c. c\<lparr>state := revealed\<rparr>) (cellAt (cells b) q))"
  proof (cases "q \<in> R")
    case True
    then have "cellAt cs q = map_option (\<lambda>c. c\<lparr>state := revealed\<rparr>) (cellAt (cells b) q)"
      unfolding assms(1) by (cases "cellAt (cells b) q") (simp_all add: revealedAt_def)
    with True assms(2) show ?thesis by simp
  next
    case False
    then show ?thesis unfolding assms(1) by (simp add: revealedAt_notin)
  qed
qed

lemma revealStep_trans:
  assumes "revealStep b (cells nb)" "revealStep nb cs"
  shows "revealStep b cs"
  unfolding revealStep_def
proof
  fix q
  from assms(1) consider (same) "cellAt (cells nb) q = cellAt (cells b) q"
    | (rev) "hiddenSafe b q" "cellAt (cells nb) q = map_option (\<lambda>c. c\<lparr>state := revealed\<rparr>) (cellAt (cells b) q)"
    unfolding revealStep_def by blast
  then show "cellAt cs q = cellAt (cells b) q
     \<or> (hiddenSafe b q \<and> cellAt cs q = map_option (\<lambda>c. c\<lparr>state := revealed\<rparr>) (cellAt (cells b) q))"
  proof cases
    case same
    then have hs: "hiddenSafe nb q \<longleftrightarrow> hiddenSafe b q" by (simp add: hiddenSafe_def)
    from assms(2) have "cellAt cs q = cellAt (cells nb) q
       \<or> (hiddenSafe nb q \<and> cellAt cs q = map_option (\<lambda>c. c\<lparr>state := revealed\<rparr>) (cellAt (cells nb) q))"
      unfolding revealStep_def by (rule spec)
    then show ?thesis unfolding same hs .
  next
    case rev
    then have "\<not> hiddenSafe nb q"
      by (cases "cellAt (cells b) q") (simp_all add: hiddenSafe_def)
    with assms(2) have "cellAt cs q = cellAt (cells nb) q" unfolding revealStep_def by blast
    with rev show ?thesis by simp
  qed
qed

lemma floodFill_total:
  "wellFormed nb \<Longrightarrow>
     \<exists>nb'. floodFill nb toReveal visited = Some nb'
       \<and> revealStep nb (cells nb')
       \<and> map length (cells nb') = map length (cells nb)
       \<and> (\<exists>cs n. nb' = nb\<lparr>cells := cs, revealedCount := n\<rparr>)"
proof (induction nb toReveal visited rule: floodFill.induct)
  case (1 nb visited)
  have "\<exists>cs n. nb = nb\<lparr>cells := cs, revealedCount := n\<rparr>"
    by (rule exI[of _ "cells nb"], rule exI[of _ "revealedCount nb"]) simp
  moreover have "floodFill nb [] visited = Some nb" by simp
  moreover have "revealStep nb (cells nb)" by (rule revealStep_refl)
  ultimately show ?case by blast
next
  case (2 nb current toReveal visited)
  show ?case
  proof (cases "current \<in> visited")
    case True
    from "2.IH"(1)[OF True "2.prems"] obtain nb' where f:
      "floodFill nb toReveal visited = Some nb'"
      "revealStep nb (cells nb')"
      "map length (cells nb') = map length (cells nb)"
      "\<exists>cs n. nb' = nb\<lparr>cells := cs, revealedCount := n\<rparr>" by blast
    have "floodFill nb (current # toReveal) visited = Some nb'" using True f(1) by simp
    with f(2,3,4) show ?thesis by blast
  next
    case False
    let ?nbrs = "getAdjacentPositions nb current"
    have ex: "\<exists>cl. cellAt (cells nb) a = Some cl" if "a \<in> set ?nbrs" for a
    proof -
      from that have "isValidPosition nb a" by (simp add: set_getAdjacentPositions)
      with "2.prems" show ?thesis by (rule wellFormed_cellAt)
    qed
    from revealNeighbours_effect[of ?nbrs nb toReveal, OF ex]
    obtain nb1 st1 where r:
      "revealNeighbours ?nbrs (nb, toReveal) = Some (nb1, st1)"
      "\<And>q. cellAt (cells nb1) q
              = map_option (revealedAt {a \<in> set ?nbrs. hiddenSafe nb a} q) (cellAt (cells nb) q)"
      "map length (cells nb1) = map length (cells nb)"
      "\<exists>cs n. nb1 = nb\<lparr>cells := cs, revealedCount := n\<rparr>" by blast
    from r(4) obtain cs1 n1 where fr1: "nb1 = nb\<lparr>cells := cs1, revealedCount := n1\<rparr>" by blast
    have "width nb1 = width nb" "height nb1 = height nb" unfolding fr1 by simp_all
    with "2.prems" r(3) have wf1: "wellFormed nb1" by (rule wellFormed_cong)
    have st1: "revealStep nb (cells nb1)"
      by (rule revealStep_revealedAt[OF r(2)]) simp
    from "2.IH"(2)[OF False r(1) refl wf1] obtain nb' where f:
      "floodFill nb1 st1 (insert current visited) = Some nb'"
      "revealStep nb1 (cells nb')"
      "map length (cells nb') = map length (cells nb1)"
      "\<exists>cs n. nb' = nb1\<lparr>cells := cs, revealedCount := n\<rparr>" by blast
    from f(4) obtain cs2 n2 where "nb' = nb1\<lparr>cells := cs2, revealedCount := n2\<rparr>" by blast
    with fr1 have "nb' = nb\<lparr>cells := cs2, revealedCount := n2\<rparr>" by simp
    then have "\<exists>cs n. nb' = nb\<lparr>cells := cs, revealedCount := n\<rparr>" by blast
    moreover have "floodFill nb (current # toReveal) visited = Some nb'"
      using False r(1) f(1) by simp
    moreover have "revealStep nb (cells nb')" using st1 f(2) by (rule revealStep_trans)
    moreover have "map length (cells nb') = map length (cells nb)" using f(3) r(3) by simp
    ultimately show ?thesis by blast
  qed
qed

lemma revealCell_noop:
  "\<not> isValidPosition b p \<or> (\<exists>cl. cellAt (cells b) p = Some cl \<and> (state cl = revealed \<or> state cl = flagged))
   \<Longrightarrow> revealCell b p = Some b"
  by (auto simp: revealCell_def isValidPosition_def)

lemma revealCell_mine:
  assumes wf: "wellFormed b" and v: "isValidPosition b p" and cl: "cellAt (cells b) p = Some cl"
    and st: "state cl \<noteq> revealed" "state cl \<noteq> flagged" and m: "hasMine cl"
  shows "\<exists>cs. revealCell b p = Some (b\<lparr>firstClick := False, cells := cs, gameStatus := lost\<rparr>)
     \<and> map length cs = map length (cells b)
     \<and> (\<forall>q. cellAt cs q = map_option (shownMine p q) (cellAt (cells b) q))"
proof -
  from revealAllMines_board[OF wf cl] obtain cs where r:
    "revealAllMines (boardPositions (height b) (width b)) (setState (cells b) p exploded) = Some cs"
    "\<forall>q. cellAt cs q = map_option (shownMine p q) (cellAt (cells b) q)"
    "map length cs = map length (cells b)" by blast
  from v have nb: "\<not> (row p < 0 \<or> row p \<ge> height b \<or> col p < 0 \<or> col p \<ge> width b)"
    by (auto simp: isValidPosition_def)
  have "revealCell b p = Some (b\<lparr>firstClick := False, cells := cs, gameStatus := lost\<rparr>)"
    unfolding revealCell_def using nb cl st m r(1) by (simp add: Let_def)
  with r(2,3) show ?thesis by blast
qed

lemma revealCell_safe:
  assumes wf: "wellFormed b" and v: "isValidPosition b p" and cl: "cellAt (cells b) p = Some cl"
    and st: "state cl \<noteq> revealed" "state cl \<noteq> flagged" and m: "\<not> hasMine cl"
  shows "\<exists>cs n. revealCell b p =
        Some (if n = width b * height b - mineCount b
              then b\<lparr>firstClick := False, cells := cs, revealedCount := n, gameStatus := won\<rparr>
              else b\<lparr>firstClick := False, cells := cs, revealedCount := n\<rparr>)
     \<and> map length cs = map length (cells b)
     \<and> cellAt cs p = Some (cl\<lparr>state := revealed\<rparr>)
     \<and> (\<forall>q. q \<noteq> p \<longrightarrow> cellAt cs q = cellAt (cells b) q
            \<or> (hiddenSafe b q \<and> cellAt cs q = map_option (\<lambda>c. c\<lparr>state := revealed\<rparr>) (cellAt (cells b) q)))"
proof -
  let ?nb0 = "b\<lparr>firstClick := False, cells := setState (cells b) p revealed,
                revealedCount := revealedCount b + 1\<rparr>"
  from v have nb: "\<not> (row p < 0 \<or> row p \<ge> height b \<or> col p < 0 \<or> col p \<ge> width b)"
    by (auto simp: isValidPosition_def)
  have c0: "cellAt (cells ?nb0) q = (if q = p then Some (cl\<lparr>state := revealed\<rparr>) else cellAt (cells b) q)" for q
    using cl by (simp add: cellAt_setState)
  have c0p: "cellAt (cells ?nb0) p = Some (cl\<lparr>state := revealed\<rparr>)" unfolding c0 by simp
  have len0: "map length (cells ?nb0) = map length (cells b)" by (simp add: map_length_setState)
  have wf0: "wellFormed ?nb0"
    by (rule wellFormed_cong[OF wf len0]) simp_all
  have "\<exists>nb'. (if adjacentMines cl = 0 then floodFill ?nb0 [p] {} else Some ?nb0) = Some nb'
       \<and> revealStep ?nb0 (cells nb')
       \<and> map length (cells nb') = map length (cells ?nb0)
       \<and> (\<exists>cs n. nb' = ?nb0\<lparr>cells := cs, revealedCount := n\<rparr>)"
  proof (cases "adjacentMines cl = 0")
    case True
    with floodFill_total[OF wf0, of "[p]" "{}"] show ?thesis by simp
  next
    case False
    have "\<exists>cs n. ?nb0 = ?nb0\<lparr>cells := cs, revealedCount := n\<rparr>"
      by (rule exI[of _ "cells ?nb0"], rule exI[of _ "revealedCount ?nb0"]) simp
    moreover have "revealStep ?nb0 (cells ?nb0)" by (rule revealStep_refl)
    ultimately show ?thesis using False by auto
  qed
  then obtain nb' cs n where f:
    "(if adjacentMines cl = 0 then floodFill ?nb0 [p] {} else Some ?nb0) = Some nb'"
    "revealStep ?nb0 (cells nb')"
    "map length (cells nb') = map length (cells ?nb0)"
    "nb' = ?nb0\<lparr>cells := cs, revealedCount := n\<rparr>" by blast
  from f(4) have nb'_eq: "nb' = b\<lparr>firstClick := False, cells := cs, revealedCount := n\<rparr>" by simp
  have csn: "cells nb' = cs" "revealedCount nb' = n" unfolding nb'_eq by simp_all
  have "revealCell b p =
        Some (if revealedCount nb' = width b * height b - mineCount b
              then nb'\<lparr>gameStatus := won\<rparr> else nb')"
    unfolding revealCell_def using nb cl st m f(1)
    by (simp add: Let_def del: floodFill.simps split del: if_split cong: if_cong)
  then have run: "revealCell b p =
        Some (if n = width b * height b - mineCount b
              then b\<lparr>firstClick := False, cells := cs, revealedCount := n, gameStatus := won\<rparr>
              else b\<lparr>firstClick := False, cells := cs, revealedCount := n\<rparr>)"
    unfolding nb'_eq by simp
  have len: "map length cs = map length (cells b)" using f(3) len0 csn by simp
  have step: "cellAt cs q = cellAt (cells ?nb0) q
       \<or> (hiddenSafe ?nb0 q \<and> cellAt cs q = map_option (\<lambda>c. c\<lparr>state := revealed\<rparr>) (cellAt (cells ?nb0) q))" for q
    using f(2) unfolding revealStep_def csn by (rule spec)
  have "\<not> hiddenSafe ?nb0 p" unfolding hiddenSafe_def c0p by simp
  with step[of p] have atp: "cellAt cs p = Some (cl\<lparr>state := revealed\<rparr>)" unfolding c0p by blast
  have others: "cellAt cs q = cellAt (cells b) q
       \<or> (hiddenSafe b q \<and> cellAt cs q = map_option (\<lambda>c. c\<lparr>state := revealed\<rparr>) (cellAt (cells b) q))"
    if "q \<noteq> p" for q
  proof -
    from that have e: "cellAt (cells ?nb0) q = cellAt (cells b) q" unfolding c0 by simp
    then have "hiddenSafe ?nb0 q \<longleftrightarrow> hiddenSafe b q" unfolding hiddenSafe_def by (simp only:)
    with step[of q] show ?thesis unfolding e by blast
  qed
  from run len atp others show ?thesis by blast
qed

lemmas example_defs = exampleBoard_def exampleCells_def exampleCell_def pos_def
lemmas eval_defs = cellAt_def updateCell_def setState_def setAdjacentMines_def setHasMine_def
  getAdjacentPositions_def boardPositions_def nthOpt_def

lemma upt_eval: "[0..<2] = [0, 1]" "[0..<4] = [0, 1, 2, 3]"
  by (simp_all add: upt_rec)

lemma step_generated: "generateBoard zeroRandom rev 4 2 1 (Some (pos 0 0)) = Some boardGenerated"
  by (simp add: generateBoard_def createBoardWithMines_def collectAvailable_def upt_eval
      createEmptyBoard_def selectMinePosition_def eval_defs zeroRandom_def
      placerCalculateAdjacentMines_def placerCountAdjacentMines_def
      validateSolvability_def findSafeMoves_def removeDuplicatePositions_def optimizeMineDistribution_def
      placeMines_def calculateAdjacentMines_def countAdjacentMines_def boardGenerated_def example_defs)

lemma step_opened: "revealCell boardGenerated (pos 0 0) = Some boardOpened"
  by (simp add: revealCell_def boardGenerated_def boardOpened_def example_defs eval_defs)

lemma step_won: "revealCell boardOpened (pos 0 3) = Some boardWon"
  by (simp add: revealCell_def boardWon_def boardOpened_def example_defs eval_defs)

lemma step_wonThenLost: "revealCell boardWon (pos 1 3) = Some boardWonThenLost"
  by (simp add: revealCell_def boardWon_def boardWonThenLost_def example_defs eval_defs upt_eval)

lemma step_lost: "revealCell boardOpened (pos 1 3) = Some boardLost"
  by (simp add: revealCell_def boardOpened_def boardLost_def example_defs eval_defs upt_eval)

lemma step_wrongFlag: "toggleFlag boardOpened (pos 0 3) = Some boardWrongFlag"
  by (simp add: toggleFlag_def boardOpened_def boardWrongFlag_def example_defs eval_defs)

lemma step_mineFlagged: "toggleFlag boardGenerated (pos 1 3) = Some boardMineFlagged"
  by (simp add: toggleFlag_def boardGenerated_def boardMineFlagged_def example_defs eval_defs)

lemma step_mineFlagged_reveal: "revealCell boardMineFlagged (pos 1 3) = Some boardMineFlagged"
  by (simp add: revealCell_def boardMineFlagged_def example_defs eval_defs)

lemma step_zeroFlagged: "toggleFlag boardGenerated (pos 0 1) = Some boardZeroFlagged"
  by (simp add: toggleFlag_def boardGenerated_def boardZeroFlagged_def example_defs eval_defs)

lemma step_zeroFlaggedOpened: "revealCell boardZeroFlagged (pos 0 0) = Some boardZeroFlaggedOpened"
  by (simp add: revealCell_def boardZeroFlagged_def boardZeroFlaggedOpened_def example_defs eval_defs)


lemma hint_opened:
  "analyzeBoard boardOpened =
     Some (Some \<lparr>suggestedMove = pos 0 3, moveType = probability, confidence = 1 / 2,
                 reasoning = ''This cell has a 50% chance of being safe based on probability analysis.''\<rparr>)"
  by (simp add: analyzeBoard_def findSafeMoves_def findLogicalMoves_def findProbabilityMoves_def
      getCellsByState_def calculateSafeProbability_def removeDuplicatePositions_def cellsAt_def
      positionsInState_def mathRound_def showInt_def
      boardOpened_def example_defs eval_defs upt_eval)


lemma step_twoMines: "placeMines rev (createEmptyBoard 4 2) 2 (Some (pos 0 0)) = Some boardTwoMines"
  by (simp add: placeMines_def calculateAdjacentMines_def countAdjacentMines_def collectAvailable_def
      createEmptyBoard_def boardTwoMines_def twoMineCells_def example_defs eval_defs upt_eval)

lemma step_twoMinesOpened: "revealCell boardTwoMines (pos 0 0) = Some boardTwoMinesOpened"
  by (simp add: revealCell_def boardTwoMines_def boardTwoMinesOpened_def twoMineCells_def
      example_defs eval_defs)

lemma step_twoMinesLost: "revealCell boardTwoMinesOpened (pos 1 3) = Some boardTwoMinesLost"
  by (simp add: revealCell_def boardTwoMinesOpened_def boardTwoMinesLost_def twoMineCells_def
      example_defs eval_defs upt_eval)

lemma upt_one: "[0..<1] = [0]"
  by (simp add: upt_rec)

lemma step_singleMine: "generateBoard zeroRandom rev 1 1 1 None = Some boardSingleMine"
  by (simp add: generateBoard_def createBoardWithMines_def collectAvailable_def upt_one
      createEmptyBoard_def selectMinePosition_def eval_defs zeroRandom_def
      placerCalculateAdjacentMines_def placerCountAdjacentMines_def
      validateSolvability_def findSafeMoves_def removeDuplicatePositions_def optimizeMineDistribution_def
      boardSingleMine_def example_defs)

lemma step_singleMineLost: "revealCell boardSingleMine (pos 0 0) = Some boardSingleMineLost"
  by (simp add: revealCell_def boardSingleMine_def boardSingleMineLost_def example_defs eval_defs upt_one)

lemma step_excess: "generateBoard zeroRandom rev 4 1 3 (Some (pos 0 0)) = Some boardExcess"
  by (simp add: generateBoard_def createBoardWithMines_def collectAvailable_def upt_eval upt_one
      createEmptyBoard_def selectMinePosition_def eval_defs zeroRandom_def
      placerCalculateAdjacentMines_def placerCountAdjacentMines_def
      validateSolvability_def findSafeMoves_def removeDuplicatePositions_def optimizeMineDistribution_def
      placeMines_def calculateAdjacentMines_def countAdjacentMines_def boardExcess_def numeral_2_eq_2
      excessBoard_def excessCells_def example_defs)

lemma step_excessWon: "revealCell boardExcess (pos 0 1) = Some boardExcessWon"
  by (simp add: revealCell_def boardExcess_def boardExcessWon_def excessBoard_def excessCells_def
      example_defs eval_defs)

lemma step_excessOver: "revealCell boardExcessWon (pos 0 0) = Some boardExcessOver"
  by (simp add: revealCell_def boardExcessWon_def boardExcessOver_def excessBoard_def excessCells_def
      example_defs eval_defs)

lemma step_excessOver_again: "revealCell boardExcessOver (pos 0 0) = Some boardExcessOver"
  by (simp add: revealCell_def boardExcessOver_def excessBoard_def excessCells_def
      example_defs eval_defs)

lemma step_lostThenWon: "revealCell boardLost (pos 0 3) = Some boardLostThenWon"
  by (simp add: revealCell_def boardLost_def boardLostThenWon_def example_defs eval_defs)
lemma revealNeighbours_frame:
  "revealNeighbours as (nb, st) = Some (nb', st') \<Longrightarrow> gameStatus nb' = gameStatus nb"
proof (induction as arbitrary: nb st)
  case Nil
  then show ?case by simp
next
  case (Cons a as)
  from Cons.prems obtain cl where cl: "cellAt (cells nb) a = Some cl"
    by (auto split: option.splits)
  show ?case
  proof (cases "state cl = hidden \<and> \<not> hasMine cl")
    case True
    let ?nb = "nb\<lparr>cells := setState (cells nb) a revealed, revealedCount := revealedCount nb + 1\<rparr>"
    let ?st = "if adjacentMines cl = 0 then a # st else st"
    from Cons.prems cl True have "revealNeighbours as (?nb, ?st) = Some (nb', st')" by simp
    from Cons.IH[OF this] show ?thesis by simp
  next
    case False
    with Cons.prems cl have "revealNeighbours as (nb, st) = Some (nb', st')" by auto
    from Cons.IH[OF this] show ?thesis .
  qed
qed

lemma floodFill_frame:
  "floodFill nb toReveal visited = Some nb' \<Longrightarrow> gameStatus nb' = gameStatus nb"
proof (induction nb toReveal visited rule: floodFill.induct)
  case (1 nb visited)
  then show ?case by simp
next
  case (2 nb current toReveal visited)
  show ?case
  proof (cases "current \<in> visited")
    case True
    with "2.prems" have "floodFill nb toReveal visited = Some nb'" by simp
    from "2.IH"(1)[OF True this] show ?thesis .
  next
    case False
    with "2.prems" obtain nb1 st1 where
      r: "revealNeighbours (getAdjacentPositions nb current) (nb, toReveal) = Some (nb1, st1)"
      and f: "floodFill nb1 st1 (insert current visited) = Some nb'"
      by (auto split: option.splits)
    from "2.IH"(2)[OF False r refl f] revealNeighbours_frame[OF r] show ?thesis by simp
  qed
qed

lemma revealCell_status:
  assumes "revealCell board p = Some board'"
  shows "gameStatus board' = gameStatus board \<or> gameStatus board' = won \<or> gameStatus board' = lost"
proof (cases "row p < 0 \<or> row p \<ge> height board \<or> col p < 0 \<or> col p \<ge> width board")
  case True
  with assms show ?thesis by (simp add: revealCell_def)
next
  case False
  with assms obtain cl where cl: "cellAt (cells board) p = Some cl"
    by (auto simp: revealCell_def split: option.splits)
  show ?thesis
  proof (cases "state cl = revealed \<or> state cl = flagged")
    case True
    with assms False cl show ?thesis by (simp add: revealCell_def)
  next
    case st: False
    show ?thesis
    proof (cases "hasMine cl")
      case True
      with assms False cl st show ?thesis
        by (auto simp: revealCell_def Let_def split: option.splits)
    next
      case m: False
      let ?nb0 = "board\<lparr>firstClick := False, cells := setState (cells board) p revealed,
                revealedCount := revealedCount board + 1\<rparr>"
      let ?F = "if adjacentMines cl = 0 then floodFill ?nb0 [p] {} else Some ?nb0"
      have "?F \<noteq> None"
      proof
        assume "?F = None"
        then have "revealCell board p = None"
          unfolding revealCell_def using False cl st m
          by (simp add: Let_def del: floodFill.simps split del: if_split cong: if_cong)
        with assms show False by simp
      qed
      then obtain nb' where F: "?F = Some nb'" by blast
      then have "revealCell board p =
          Some (if revealedCount nb' = width board * height board - mineCount board
                then nb'\<lparr>gameStatus := won\<rparr> else nb')"
        unfolding revealCell_def using False cl st m
        by (simp add: Let_def del: floodFill.simps split del: if_split cong: if_cong)
      with assms have b': "board' = (if revealedCount nb' = width board * height board - mineCount board
                then nb'\<lparr>gameStatus := won\<rparr> else nb')" by simp
      have "gameStatus nb' = gameStatus board"
      proof (cases "adjacentMines cl = 0")
        case True
        with F have "floodFill ?nb0 [p] {} = Some nb'" by (simp del: floodFill.simps)
        from floodFill_frame[OF this] show ?thesis by simp
      next
        case False
        with F show ?thesis by auto
      qed
      with b' show ?thesis by (simp split: if_splits)
    qed
  qed
qed

lemma toggleFlag_status:
  "toggleFlag board p = Some board' \<Longrightarrow> gameStatus board' = gameStatus board"
  by (auto simp: toggleFlag_def split: if_splits option.splits)

lemma applyOperations_status:
  "applyOperations board ops = Some board' \<Longrightarrow> gameStatus board \<noteq> playing \<Longrightarrow>
   gameStatus board' \<noteq> playing"
proof (induction board ops rule: applyOperations.induct)
  case (1 board)
  then show ?case by simp
next
  case (2 board p ops)
  from "2.prems"(1) obtain b1 where r: "revealCell board p = Some b1"
    and a: "applyOperations b1 ops = Some board'" by (auto split: option.splits)
  from revealCell_status[OF r] "2.prems"(2) have "gameStatus b1 \<noteq> playing" by auto
  from "2.IH"[OF r a this] show ?case .
next
  case (3 board p ops)
  from "3.prems"(1) obtain b1 where r: "toggleFlag board p = Some b1"
    and a: "applyOperations b1 ops = Some board'" by (auto split: option.splits)
  from toggleFlag_status[OF r] "3.prems"(2) have "gameStatus b1 \<noteq> playing" by simp
  from "3.IH"[OF r a this] show ?case .
qed

lemma floodRegion_hiddenSafe:
  assumes "hiddenZero b p" "q \<in> floodRegion b p"
  shows "hiddenSafe b q"
  using assms zeroRegion_hiddenZero[OF assms(1)] hiddenZero_hiddenSafe
  unfolding floodRegion_def by blast

lemma floodInv_initial:
  assumes hz: "hiddenZero b p" and cl: "cellAt (cells b) p = Some cl"
  shows "floodInv b p {p}
           (b\<lparr>firstClick := False, cells := setState (cells b) p revealed,
              revealedCount := revealedCount b + 1\<rparr>) [p] {}"
proof (rule floodInvI)
  let ?nb0 = "b\<lparr>firstClick := False, cells := setState (cells b) p revealed,
              revealedCount := revealedCount b + 1\<rparr>"
  show "width ?nb0 = width b" "height ?nb0 = height b" by simp_all
  show "map length (cells ?nb0) = map length (cells b)" by (simp add: map_length_setState)
  show "cellAt (cells ?nb0) q = map_option (revealedAt {p} q) (cellAt (cells b) q)" for q
  proof (cases "q = p")
    case True
    then show ?thesis using cl by (simp add: cellAt_setState revealedAt_def)
  next
    case False
    then show ?thesis using cl by (simp add: cellAt_setState revealedAt_notin)
  qed
  show "p \<in> {p}" by simp
  show "hiddenSafe b q" if "q \<in> {p}" for q using that hz hiddenZero_hiddenSafe by simp
  show "{} \<subseteq> zeroRegion b p" by simp
  show "set [p] \<subseteq> zeroRegion b p" by (simp add: zeroRegion_refl)
  show "q \<in> {p}" if "z \<in> {}" "adjacent z q" "hiddenSafe b q" for z q using that by simp
  show "q \<in> {} \<union> set [p]" if "q \<in> {p}" "hiddenZero b q" for q using that by simp
  show "q = p \<or> (\<exists>z\<in>{}. adjacent z q)" if "q \<in> {p}" for q using that by simp
qed

lemma nthOpt_in_set: "nthOpt xs i = Some x \<Longrightarrow> x \<in> set xs"
  by (auto simp: nthOpt_def split: if_splits)

lemma random_index_in_range:
  assumes "0 \<le> r" "r < 1" "0 < n"
  shows "0 \<le> \<lfloor>r * real n\<rfloor>" "nat \<lfloor>r * real n\<rfloor> < n"
proof -
  from assms show nonneg: "0 \<le> \<lfloor>r * real n\<rfloor>" by simp
  from assms have "r * real n < real n" by simp
  then have "\<lfloor>r * real n\<rfloor> < int n" by (simp add: floor_less_iff)
  with nonneg show "nat \<lfloor>r * real n\<rfloor> < n" by linarith
qed

lemma nthOpt_random:
  assumes "0 \<le> r" "r < 1" "xs \<noteq> []"
  shows "\<exists>x. nthOpt xs \<lfloor>r * real (length xs)\<rfloor> = Some x"
  using random_index_in_range[OF assms(1,2), of "length xs"] assms(3)
  by (simp add: nthOpt_def)

lemma selectMinePosition_result:
  assumes "validRandom rnd"
  shows "\<exists>po n'. selectMinePosition rnd n available placed w h = Some (po, n')
     \<and> (\<forall>p. po = Some p \<longrightarrow> p \<in> set available)"
proof (cases "length available = 0")
  case True
  then show ?thesis by (simp add: selectMinePosition_def)
next
  case ne: False
  show ?thesis
  proof (cases "length placed = 0")
    case True
    with ne show ?thesis by (auto simp: selectMinePosition_def Let_def dest: nthOpt_in_set)
  next
    case False
    define scored where "scored = sort_key (\<lambda>sp. - snd sp)
        (map (\<lambda>(i, pos). (pos, calculatePositionScore (rnd (n + i)) pos placed w h))
             (enumerate 0 available))"
    define top where "top = take (min 5 (length scored)) scored"
    define n1 where "n1 = n + length available"
    have fst_scored: "fst ` set scored = set available"
    proof -
      have "map fst (map (\<lambda>(i, pos). (pos, calculatePositionScore (rnd (n + i)) pos placed w h))
             (enumerate 0 available)) = map snd (enumerate 0 available)"
        by (simp add: case_prod_beta comp_def)
      then have "fst ` set (map (\<lambda>(i, pos). (pos, calculatePositionScore (rnd (n + i)) pos placed w h))
             (enumerate 0 available)) = set available"
        by (metis list.set_map map_snd_enumerate)
      then show ?thesis by (simp add: scored_def)
    qed
    from ne have "scored \<noteq> []" using fst_scored by auto
    then have "top \<noteq> []" by (simp add: top_def)
    from assms have "0 \<le> rnd n1" "rnd n1 < 1" by (simp_all add: validRandom_def)
    from nthOpt_random[OF this \<open>top \<noteq> []\<close>] obtain cand where
      c: "nthOpt top \<lfloor>rnd n1 * real (length top)\<rfloor> = Some cand" by blast
    then have "cand \<in> set top" by (rule nthOpt_in_set)
    then have "cand \<in> set scored" unfolding top_def by (rule in_set_takeD)
    with fst_scored have "fst cand \<in> set available" by blast
    moreover have "selectMinePosition rnd n available placed w h = Some (Some (fst cand), n1 + 1)"
      using ne False c unfolding selectMinePosition_def Let_def scored_def top_def n1_def
      by simp
    ultimately show ?thesis by blast
  qed
qed

lemma minedIn_compose:
  "map_option (minedIn A q) (map_option (minedIn B q) x) = map_option (minedIn (B \<union> A) q) x"
  by (cases x) (auto simp: minedIn_def)

lemma minedIn_empty: "map_option (minedIn {} q) x = x"
  by (cases x) (simp_all add: minedIn_def)

lemma cellAt_setHasMine:
  assumes "cellAt cs p = Some cl"
  shows "\<exists>cs'. setHasMine cs p = Some cs'
     \<and> (\<forall>q. cellAt cs' q = map_option (minedIn {p} q) (cellAt cs q))
     \<and> map length cs' = map length cs"
proof -
  let ?cs = "updateCell cs p (\<lambda>c. c\<lparr>hasMine := True\<rparr>)"
  have "cellAt ?cs q = map_option (minedIn {p} q) (cellAt cs q)" for q
  proof (cases "q = p")
    case True
    then show ?thesis using assms by (simp add: cellAt_updateCell minedIn_def)
  next
    case False
    then have "map_option (minedIn {p} q) (cellAt cs q) = cellAt cs q"
      by (cases "cellAt cs q") (simp_all add: minedIn_def)
    with False show ?thesis using assms by (simp add: cellAt_updateCell)
  qed
  moreover have "setHasMine cs p = Some ?cs" using assms by (rule setHasMine_Some)
  moreover have "map length ?cs = map length cs" by (rule map_length_updateCell)
  ultimately show ?thesis by blast
qed

lemma placementLoop_result:
  assumes "validRandom rnd" and "\<And>p. p \<in> set available \<Longrightarrow> \<exists>cl. cellAt cs p = Some cl"
  shows "\<exists>cs' av' placed' n' M.
       placementLoop rnd w h k (cs, available, placed, n) = Some (cs', av', placed', n')
     \<and> M \<subseteq> set available
     \<and> (\<forall>q. cellAt cs' q = map_option (minedIn M q) (cellAt cs q))
     \<and> map length cs' = map length cs"
  using assms(2)
proof (induction k arbitrary: cs available placed n)
  case 0
  have "\<forall>q. cellAt cs q = map_option (minedIn {} q) (cellAt cs q)" by (simp add: minedIn_empty)
  moreover have "placementLoop rnd w h 0 (cs, available, placed, n) = Some (cs, available, placed, n)"
    by simp
  moreover have "{} \<subseteq> set available" by simp
  ultimately show ?case by blast
next
  case (Suc k)
  from selectMinePosition_result[OF assms(1), of n available placed w h] obtain po n1 where
    s: "selectMinePosition rnd n available placed w h = Some (po, n1)"
       "\<forall>p. po = Some p \<longrightarrow> p \<in> set available" by blast
  show ?case
  proof (cases po)
    case None
    from Suc.IH[of available cs placed n1] Suc.prems obtain cs' av' placed' n' M where
      r: "placementLoop rnd w h k (cs, available, placed, n1) = Some (cs', av', placed', n')"
         "M \<subseteq> set available" "\<forall>q. cellAt cs' q = map_option (minedIn M q) (cellAt cs q)"
         "map length cs' = map length cs" by blast
    have "placementLoop rnd w h (Suc k) (cs, available, placed, n) = Some (cs', av', placed', n')"
      using s(1) None r(1) by simp
    with r(2,3,4) show ?thesis by blast
  next
    case (Some p)
    with s(2) have pa: "p \<in> set available" by simp
    with Suc.prems obtain cl where "cellAt cs p = Some cl" by blast
    from cellAt_setHasMine[OF this] obtain cs1 where
      m: "setHasMine cs p = Some cs1" "\<forall>q. cellAt cs1 q = map_option (minedIn {p} q) (cellAt cs q)"
         "map length cs1 = map length cs" by blast
    have ex1: "\<exists>cl. cellAt cs1 x = Some cl" if "x \<in> set (remove1 p available)" for x
    proof -
      from that have "x \<in> set available" using set_remove1_subset[of p available] by blast
      with Suc.prems obtain c where "cellAt cs x = Some c" by blast
      then show ?thesis using m(2) by simp
    qed
    from Suc.IH[of "remove1 p available" cs1 "placed @ [p]" n1, OF ex1] obtain cs' av' placed' n' M where
      r: "placementLoop rnd w h k (cs1, remove1 p available, placed @ [p], n1) = Some (cs', av', placed', n')"
         "M \<subseteq> set (remove1 p available)" "\<forall>q. cellAt cs' q = map_option (minedIn M q) (cellAt cs1 q)"
         "map length cs' = map length cs1" by blast
    have "placementLoop rnd w h (Suc k) (cs, available, placed, n) = Some (cs', av', placed', n')"
      using s(1) Some m(1) r(1) by simp
    moreover have "{p} \<union> M \<subseteq> set available"
      using pa r(2) set_remove1_subset[of p available] by blast
    moreover have "\<forall>q. cellAt cs' q = map_option (minedIn ({p} \<union> M) q) (cellAt cs q)"
      using r(3) m(2) by (simp add: minedIn_compose)
    moreover have "map length cs' = map length cs" using r(4) m(3) by simp
    ultimately show ?thesis by blast
  qed
qed

lemma countMinesLoop_result:
  assumes "\<And>q. q \<in> set qs \<Longrightarrow> \<exists>cl. cellAt (cells b) q = Some cl"
  shows "countMinesLoop b qs cnt = Some (cnt + int (length (filter (minedAt b) qs)))"
  using assms
proof (induction qs arbitrary: cnt)
  case Nil
  then show ?case by simp
next
  case (Cons q qs)
  from Cons.prems obtain cl where cl: "cellAt (cells b) q = Some cl" by auto
  then have m: "minedAt b q \<longleftrightarrow> hasMine cl" by (simp add: minedAt_def)
  from Cons.prems have "\<And>x. x \<in> set qs \<Longrightarrow> \<exists>cl. cellAt (cells b) x = Some cl" by simp
  from Cons.IH[OF this] cl m show ?case by simp
qed

lemma countAdjacentMines_result:
  assumes "wellFormed b"
  shows "countAdjacentMines b p = Some (adjacentMineCount b p)"
proof -
  have "\<exists>cl. cellAt (cells b) q = Some cl" if "q \<in> set (getAdjacentPositions b p)" for q
    using that assms wellFormed_cellAt by (simp add: set_getAdjacentPositions)
  from countMinesLoop_result[OF this, of "getAdjacentPositions b p" 0]
  show ?thesis by (simp add: countAdjacentMines_def adjacentMineCount_def)
qed

lemma adjacentMineCount_cong:
  assumes "width b' = width b" "height b' = height b"
    and "\<And>q. map_option hasMine (cellAt (cells b') q) = map_option hasMine (cellAt (cells b) q)"
  shows "adjacentMineCount b' p = adjacentMineCount b p"
proof -
  have "minedAt b' q = minedAt b q" for q
    using assms(3)[of q] unfolding minedAt_def
    by (cases "cellAt (cells b') q"; cases "cellAt (cells b) q") simp_all
  then have "minedAt b' = minedAt b" by (rule ext)
  moreover have "getAdjacentPositions b' p = getAdjacentPositions b p"
    by (simp add: getAdjacentPositions_def assms(1,2))
  ultimately show ?thesis by (simp add: adjacentMineCount_def)
qed

lemma cluedIn_empty: "map_option (cluedIn b {} q) x = x"
  by (cases x) (simp_all add: cluedIn_def)

lemma adjacentMinesLoop_result:
  assumes "wellFormed nb" and "\<And>p. p \<in> set ps \<Longrightarrow> isValidPosition nb p"
  shows "\<exists>cs. adjacentMinesLoop ps nb = Some (nb\<lparr>cells := cs\<rparr>)
     \<and> map length cs = map length (cells nb)
     \<and> (\<forall>q. cellAt cs q = map_option (cluedIn nb (set ps) q) (cellAt (cells nb) q))"
  using assms
proof (induction ps arbitrary: nb)
  case Nil
  have "nb = nb\<lparr>cells := cells nb\<rparr>" by simp
  then have "adjacentMinesLoop [] nb = Some (nb\<lparr>cells := cells nb\<rparr>)" by simp
  moreover have "\<forall>q. cellAt (cells nb) q = map_option (cluedIn nb (set []) q) (cellAt (cells nb) q)"
    by (simp add: cluedIn_empty)
  ultimately show ?case by blast
next
  case (Cons p ps)
  from Cons.prems have v: "isValidPosition nb p" by simp
  with Cons.prems(1) obtain cl where cl: "cellAt (cells nb) p = Some cl"
    using wellFormed_cellAt by blast
  show ?case
  proof (cases "hasMine cl")
    case True
    from Cons.IH[OF Cons.prems(1)] Cons.prems(2) obtain cs where r:
      "adjacentMinesLoop ps nb = Some (nb\<lparr>cells := cs\<rparr>)"
      "map length cs = map length (cells nb)"
      "\<forall>q. cellAt cs q = map_option (cluedIn nb (set ps) q) (cellAt (cells nb) q)" by auto
    have "adjacentMinesLoop (p # ps) nb = Some (nb\<lparr>cells := cs\<rparr>)" using cl True r(1) by simp
    moreover have "cellAt cs q = map_option (cluedIn nb (set (p # ps)) q) (cellAt (cells nb) q)" for q
    proof (cases "q = p")
      case True
      with cl \<open>hasMine cl\<close> r(3) show ?thesis by (simp add: cluedIn_def)
    next
      case False
      then have "cluedIn nb (set (p # ps)) q = cluedIn nb (set ps) q"
        by (intro ext) (simp add: cluedIn_def)
      with r(3) show ?thesis by simp
    qed
    ultimately show ?thesis using r(2) by blast
  next
    case False
    let ?n = "adjacentMineCount nb p"
    let ?nb1 = "nb\<lparr>cells := setAdjacentMines (cells nb) p ?n\<rparr>"
    have c1: "cellAt (setAdjacentMines (cells nb) p ?n) q
        = (if q = p then Some (cl\<lparr>adjacentMines := ?n\<rparr>) else cellAt (cells nb) q)" for q
      using cl by (rule cellAt_setAdjacentMines)
    have len1: "map length (cells ?nb1) = map length (cells nb)"
      by (simp add: map_length_setAdjacentMines)
    have wf1: "wellFormed ?nb1" by (rule wellFormed_cong[OF Cons.prems(1) len1]) simp_all
    have v1: "isValidPosition ?nb1 x" if "x \<in> set ps" for x
      using Cons.prems(2)[of x] that by (simp add: isValidPosition_def)
    from Cons.IH[OF wf1 v1] obtain cs where r:
      "adjacentMinesLoop ps ?nb1 = Some (?nb1\<lparr>cells := cs\<rparr>)"
      "map length cs = map length (cells ?nb1)"
      "\<forall>q. cellAt cs q = map_option (cluedIn ?nb1 (set ps) q) (cellAt (cells ?nb1) q)" by blast
    have cnt: "adjacentMineCount ?nb1 q = adjacentMineCount nb q" for q
    proof (rule adjacentMineCount_cong)
      show "map_option hasMine (cellAt (cells ?nb1) x) = map_option hasMine (cellAt (cells nb) x)" for x
        using cl by (simp add: c1)
    qed simp_all
    then have ci: "cluedIn ?nb1 S q = cluedIn nb S q" for S q
      by (intro ext) (simp add: cluedIn_def)
    have "adjacentMinesLoop (p # ps) nb = Some (nb\<lparr>cells := cs\<rparr>)"
      using cl False r(1) countAdjacentMines_result[OF Cons.prems(1), of p] by simp
    moreover have "cellAt cs q = map_option (cluedIn nb (set (p # ps)) q) (cellAt (cells nb) q)" for q
    proof (cases "q = p")
      case True
      have "cellAt cs p = Some (cluedIn nb (set ps) p (cl\<lparr>adjacentMines := ?n\<rparr>))"
        using r(3) by (simp add: ci c1)
      also have "cluedIn nb (set ps) p (cl\<lparr>adjacentMines := ?n\<rparr>) = cl\<lparr>adjacentMines := ?n\<rparr>"
        by (simp add: cluedIn_def)
      also have "cl\<lparr>adjacentMines := ?n\<rparr> = cluedIn nb (set (p # ps)) p cl"
        using False by (simp add: cluedIn_def)
      finally show ?thesis using True cl by simp
    next
      case ne: False
      then have "cluedIn nb (set (p # ps)) q = cluedIn nb (set ps) q"
        by (intro ext) (simp add: cluedIn_def)
      with r(3) ne show ?thesis by (simp add: ci c1)
    qed
    moreover have "map length cs = map length (cells nb)" using r(2) len1 by simp
    ultimately show ?thesis by blast
  qed
qed

lemma placerAdjacentMinesLoop_eq: "placerAdjacentMinesLoop ps b = adjacentMinesLoop ps b"
  by (induction ps arbitrary: b)
     (simp_all add: placerCountAdjacentMines_def countAdjacentMines_def split: option.splits)

lemma wellFormed_createEmptyBoard: "wellFormed (createEmptyBoard w h)"
  by (simp add: wellFormed_def createEmptyBoard_def)

lemma cellAt_createEmptyBoard:
  assumes "cellAt (cells (createEmptyBoard w h)) q = Some c"
  shows "state c = hidden \<and> \<not> hasMine c"
proof -
  let ?cs = "cells (createEmptyBoard w h)"
  note d = cellAt_SomeD[OF assms]
  have len: "length ?cs = nat h" by (simp add: createEmptyBoard_def)
  with d have i: "nat (row q) < nat h" by simp
  then have rw: "?cs ! nat (row q) = map (\<lambda>c.
                \<lparr>state = hidden, hasMine = False, adjacentMines = 0,
                 position = \<lparr>row = int (nat (row q)), col = int c\<rparr>\<rparr>) [0..<nat w]"
    by (simp add: createEmptyBoard_def)
  with d have j: "nat (col q) < nat w" by simp
  from d have "c = ?cs ! nat (row q) ! nat (col q)" by simp
  also have "\<dots> = \<lparr>state = hidden, hasMine = False, adjacentMines = 0,
                 position = \<lparr>row = int (nat (row q)), col = int (nat (col q))\<rparr>\<rparr>"
    unfolding rw using j by simp
  finally show ?thesis by simp
qed

lemma placeMinesLoop_result:
  assumes "\<And>i. i \<in> set idx \<Longrightarrow> i < length shuffled"
    and "\<And>p. p \<in> set shuffled \<Longrightarrow> \<exists>cl. cellAt cs p = Some cl"
  shows "\<exists>cs' M. placeMinesLoop shuffled idx cs = Some cs'
     \<and> M \<subseteq> set shuffled
     \<and> (\<forall>q. cellAt cs' q = map_option (minedIn M q) (cellAt cs q))
     \<and> map length cs' = map length cs"
  using assms
proof (induction idx arbitrary: cs)
  case Nil
  have "\<forall>q. cellAt cs q = map_option (minedIn {} q) (cellAt cs q)" by (simp add: minedIn_empty)
  moreover have "placeMinesLoop shuffled [] cs = Some cs" by simp
  moreover have "{} \<subseteq> set shuffled" by simp
  moreover have "map length cs = map length cs" by simp
  ultimately show ?case
    by (intro exI[of _ cs] exI[of _ "{}"] conjI)
next
  case (Cons i idx)
  from Cons.prems(1) have i: "i < length shuffled" by simp
  then have mem: "shuffled ! i \<in> set shuffled" by simp
  with Cons.prems(2) obtain cl where "cellAt cs (shuffled ! i) = Some cl" by blast
  from cellAt_setHasMine[OF this] obtain cs1 where
    m: "setHasMine cs (shuffled ! i) = Some cs1"
       "\<forall>q. cellAt cs1 q = map_option (minedIn {shuffled ! i} q) (cellAt cs q)"
       "map length cs1 = map length cs" by blast
  have ex1: "\<exists>cl. cellAt cs1 p = Some cl" if "p \<in> set shuffled" for p
  proof -
    from Cons.prems(2)[OF that] obtain c where "cellAt cs p = Some c" by blast
    then show ?thesis using m(2) by simp
  qed
  have idx': "\<And>j. j \<in> set idx \<Longrightarrow> j < length shuffled" using Cons.prems(1) by simp
  from Cons.IH[OF idx' ex1] obtain cs' M where r:
    "placeMinesLoop shuffled idx cs1 = Some cs'" "M \<subseteq> set shuffled"
    "\<forall>q. cellAt cs' q = map_option (minedIn M q) (cellAt cs1 q)"
    "map length cs' = map length cs1" by blast
  have "placeMinesLoop shuffled (i # idx) cs = Some cs'" using i m(1) r(1) by simp
  moreover have "{shuffled ! i} \<union> M \<subseteq> set shuffled" using mem r(2) by simp
  moreover have "\<forall>q. cellAt cs' q = map_option (minedIn ({shuffled ! i} \<union> M) q) (cellAt cs q)"
    using r(3) m(2) by (simp add: minedIn_compose)
  moreover have "map length cs' = map length cs" using r(4) m(3) by simp
  ultimately show ?case
    by (intro exI[of _ cs'] exI[of _ "{shuffled ! i} \<union> M"] conjI)
qed

lemma freshBoardI:
  assumes "wellFormed b" "width b = w" "height b = h" "cluesConsistent b"
    and "\<And>q c. cellAt (cells b) q = Some c \<Longrightarrow> state c = hidden"
    and "\<And>q c. cellAt (cells b) q = Some c \<Longrightarrow> hasMine c \<Longrightarrow> q \<in> M"
  shows "freshBoard w h M b"
  unfolding freshBoard_def using assms by blast

lemma freshBoardD:
  assumes "freshBoard w h M b"
  shows "wellFormed b" "width b = w" "height b = h" "cluesConsistent b"
    and "\<And>q c. cellAt (cells b) q = Some c \<Longrightarrow> state c = hidden"
    and "\<And>q c. cellAt (cells b) q = Some c \<Longrightarrow> hasMine c \<Longrightarrow> q \<in> M"
  using assms unfolding freshBoard_def by blast+

lemma calculateAdjacentMines_fresh:
  assumes wf: "wellFormed b1" and w: "width b1 = w" and h: "height b1 = h"
    and hid: "\<And>q c. cellAt (cells b1) q = Some c \<Longrightarrow> state c = hidden"
    and mines: "\<And>q c. cellAt (cells b1) q = Some c \<Longrightarrow> hasMine c \<Longrightarrow> q \<in> M"
  shows "\<exists>cs. calculateAdjacentMines b1 = Some (b1\<lparr>cells := cs\<rparr>) \<and> freshBoard w h M (b1\<lparr>cells := cs\<rparr>)"
proof -
  let ?ps = "boardPositions (height b1) (width b1)"
  have "\<And>p. p \<in> set ?ps \<Longrightarrow> isValidPosition b1 p" by (simp add: isValidPosition_boardPositions)
  from adjacentMinesLoop_result[OF wf this] obtain cs where r:
    "adjacentMinesLoop ?ps b1 = Some (b1\<lparr>cells := cs\<rparr>)"
    "map length cs = map length (cells b1)"
    "\<And>q. cellAt cs q = map_option (cluedIn b1 (set ?ps) q) (cellAt (cells b1) q)" by blast
  let ?b = "b1\<lparr>cells := cs\<rparr>"
  have wfb: "wellFormed ?b" by (rule wellFormed_cong[OF wf]) (simp_all add: r(2))
  have cnt: "adjacentMineCount ?b q = adjacentMineCount b1 q" for q
  proof (rule adjacentMineCount_cong)
    show "map_option hasMine (cellAt (cells ?b) x) = map_option hasMine (cellAt (cells b1) x)" for x
      by (cases "cellAt (cells b1) x") (simp_all add: r(3) cluedIn_def)
  qed simp_all
  have cell: "\<exists>c0. cellAt (cells b1) q = Some c0 \<and> c = cluedIn b1 (set ?ps) q c0 \<and> q \<in> set ?ps"
    if "cellAt (cells ?b) q = Some c" for q c
  proof -
    from that obtain c0 where c0: "cellAt (cells b1) q = Some c0" "c = cluedIn b1 (set ?ps) q c0"
      by (auto simp: r(3))
    with wf have "isValidPosition b1 q" using wellFormed_cellAt_iff by blast
    with c0 show ?thesis by (simp add: isValidPosition_boardPositions)
  qed
  have cc: "cluesConsistent ?b"
    unfolding cluesConsistent_def
  proof (intro allI impI)
    fix q c assume a: "cellAt (cells ?b) q = Some c \<and> \<not> hasMine c"
    with cell[of q c] obtain c0 where c0: "c = cluedIn b1 (set ?ps) q c0" "q \<in> set ?ps" by blast
    with a have "\<not> hasMine c0" by (simp add: cluedIn_def split: if_splits)
    with c0 have "adjacentMines c = adjacentMineCount b1 q" by (simp add: cluedIn_def)
    then show "adjacentMines c = adjacentMineCount ?b q" unfolding cnt .
  qed
  have hd: "state c = hidden" if "cellAt (cells ?b) q = Some c" for q c
  proof -
    from cell[OF that] obtain c0 where c0: "cellAt (cells b1) q = Some c0" "c = cluedIn b1 (set ?ps) q c0"
      by blast
    from hid[OF c0(1)] c0(2) show ?thesis by (simp add: cluedIn_def)
  qed
  have mn: "q \<in> M" if "cellAt (cells ?b) q = Some c" "hasMine c" for q c
  proof -
    from cell[OF that(1)] obtain c0 where c0: "cellAt (cells b1) q = Some c0" "c = cluedIn b1 (set ?ps) q c0"
      by blast
    with that(2) have "hasMine c0" by (simp add: cluedIn_def split: if_splits)
    with c0(1) show ?thesis by (rule mines)
  qed
  have "width ?b = w" "height ?b = h" using w h by simp_all
  with wfb have "freshBoard w h M ?b" using cc hd mn by (rule freshBoardI)
  moreover have "calculateAdjacentMines b1 = Some ?b" using r(1) by (simp add: calculateAdjacentMines_def)
  ultimately show ?thesis by blast
qed

lemma collectAvailable_valid:
  "p \<in> set (collectAvailable h w sz) \<Longrightarrow> isValidPosition (createEmptyBoard w h) p"
  by (simp add: collectAvailable_def set_boardPositions isValidPosition_def createEmptyBoard_def)

lemma collectAvailable_cells:
  assumes "p \<in> set (collectAvailable h w sz)"
  shows "\<exists>cl. cellAt (cells (createEmptyBoard w h)) p = Some cl"
  using wellFormed_cellAt[OF wellFormed_createEmptyBoard collectAvailable_valid[OF assms]] .

lemma mined_board_fresh:
  assumes M: "M \<subseteq> A"
    and cs: "\<And>q. cellAt (cells b1) q = map_option (minedIn M q) (cellAt (cells (createEmptyBoard w h)) q)"
    and len: "map length (cells b1) = map length (cells (createEmptyBoard w h))"
    and w1: "width b1 = w" and h1: "height b1 = h"
  shows "\<exists>b. calculateAdjacentMines b1 = Some b \<and> freshBoard w h A b
     \<and> revealedCount b = revealedCount b1"
proof -
  let ?b0 = "createEmptyBoard w h"
  have "width ?b0 = w" "height ?b0 = h" by (simp_all add: createEmptyBoard_def)
  with w1 h1 have "width b1 = width ?b0" "height b1 = height ?b0" by simp_all
  with wellFormed_createEmptyBoard len have wf1: "wellFormed b1" by (rule wellFormed_cong)
  have orig: "\<exists>c0. cellAt (cells ?b0) q = Some c0 \<and> c = minedIn M q c0"
    if "cellAt (cells b1) q = Some c" for q c
    using that unfolding cs by auto
  have "\<exists>cs'. calculateAdjacentMines b1 = Some (b1\<lparr>cells := cs'\<rparr>)
       \<and> freshBoard w h A (b1\<lparr>cells := cs'\<rparr>)"
  proof (rule calculateAdjacentMines_fresh[OF wf1 w1 h1])
    fix q c assume a: "cellAt (cells b1) q = Some c"
    from orig[OF a] obtain c0 where c0: "cellAt (cells ?b0) q = Some c0" "c = minedIn M q c0" by blast
    from cellAt_createEmptyBoard[OF c0(1)] c0(2) show "state c = hidden" by (simp add: minedIn_def)
    assume "hasMine c"
    with cellAt_createEmptyBoard[OF c0(1)] c0(2) have "q \<in> M"
      by (simp add: minedIn_def split: if_splits)
    with M show "q \<in> A" by blast
  qed
  then obtain cs' where r:
    "calculateAdjacentMines b1 = Some (b1\<lparr>cells := cs'\<rparr>)" "freshBoard w h A (b1\<lparr>cells := cs'\<rparr>)"
    by blast
  moreover have "revealedCount (b1\<lparr>cells := cs'\<rparr>) = revealedCount b1" by simp
  ultimately show ?thesis by blast
qed

lemma placerCalculateAdjacentMines_eq: "placerCalculateAdjacentMines b = calculateAdjacentMines b"
  by (simp add: placerCalculateAdjacentMines_def calculateAdjacentMines_def placerAdjacentMinesLoop_eq)

lemma createBoardWithMines_result:
  assumes "validRandom rnd"
  shows "\<exists>b n'. createBoardWithMines rnd n w h mines sz = Some (b, n')
     \<and> freshBoard w h (set (collectAvailable h w sz)) b \<and> revealedCount b = 0"
proof -
  let ?b0 = "createEmptyBoard w h"
  let ?av = "collectAvailable h w sz"
  let ?k = "nat (min mines (int (length ?av)))"
  have ex: "\<And>p. p \<in> set ?av \<Longrightarrow> \<exists>cl. cellAt (cells ?b0) p = Some cl"
    by (rule collectAvailable_cells)
  from placementLoop_result[OF assms ex]
  obtain cs av' placed n' M where r:
    "placementLoop rnd w h ?k (cells ?b0, ?av, [], n) = Some (cs, av', placed, n')"
    "M \<subseteq> set ?av" "\<forall>q. cellAt cs q = map_option (minedIn M q) (cellAt (cells ?b0) q)"
    "map length cs = map length (cells ?b0)" by blast
  let ?b1 = "?b0\<lparr>cells := cs, mineCount := int (length placed)\<rparr>"
  have "\<exists>b. calculateAdjacentMines ?b1 = Some b \<and> freshBoard w h (set ?av) b
     \<and> revealedCount b = revealedCount ?b1"
    by (rule mined_board_fresh[OF r(2)]) (simp_all add: r(3,4), simp_all add: createEmptyBoard_def)
  then obtain b where f: "calculateAdjacentMines ?b1 = Some b" "freshBoard w h (set ?av) b"
    "revealedCount b = revealedCount ?b1" by blast
  have "createBoardWithMines rnd n w h mines sz = Some (b, n')"
    unfolding createBoardWithMines_def Let_def r(1) placerCalculateAdjacentMines_eq
    by (simp add: f(1))
  moreover have "revealedCount b = 0" unfolding f(3) by (simp add: createEmptyBoard_def)
  ultimately show ?thesis using f(2) by blast
qed

lemma placeMines_result:
  assumes "validShuffle shuffle"
  shows "\<exists>b. placeMines shuffle (createEmptyBoard w h) mines sz = Some b
     \<and> freshBoard w h (set (collectAvailable h w sz)) b \<and> revealedCount b = 0"
proof -
  let ?b0 = "createEmptyBoard w h"
  let ?av = "collectAvailable h w sz"
  let ?sh = "shuffle ?av"
  let ?k = "nat (min mines (int (length ?av)))"
  from assms have ms: "mset ?sh = mset ?av" by (simp add: validShuffle_def)
  then have set_sh: "set ?sh = set ?av" by (rule mset_eq_setD)
  from ms have len_sh: "length ?sh = length ?av" by (rule mset_eq_length)
  have idx: "i < length ?sh" if "i \<in> set [0..<?k]" for i
    using that len_sh by auto
  have ex: "\<exists>cl. cellAt (cells ?b0) p = Some cl" if "p \<in> set ?sh" for p
    using that set_sh collectAvailable_cells by blast
  from placeMinesLoop_result[OF idx ex] obtain cs M where r:
    "placeMinesLoop ?sh [0..<?k] (cells ?b0) = Some cs" "M \<subseteq> set ?sh"
    "\<forall>q. cellAt cs q = map_option (minedIn M q) (cellAt (cells ?b0) q)"
    "map length cs = map length (cells ?b0)" by blast
  from r(2) set_sh have M: "M \<subseteq> set ?av" by simp
  let ?b1 = "?b0\<lparr>mineCount := mines, cells := cs\<rparr>"
  have "\<exists>b. calculateAdjacentMines ?b1 = Some b \<and> freshBoard w h (set ?av) b
     \<and> revealedCount b = revealedCount ?b1"
    by (rule mined_board_fresh[OF M]) (simp_all add: r(3,4), simp_all add: createEmptyBoard_def)
  then obtain b where f: "calculateAdjacentMines ?b1 = Some b" "freshBoard w h (set ?av) b"
    "revealedCount b = revealedCount ?b1" by blast
  have wh: "width ?b0 = w" "height ?b0 = h" "cells (?b0\<lparr>mineCount := mines\<rparr>) = cells ?b0"
    by (simp_all add: createEmptyBoard_def)
  have "placeMines shuffle ?b0 mines sz = Some b"
    unfolding placeMines_def Let_def wh r(1) by (simp add: f(1))
  moreover have "revealedCount b = 0" unfolding f(3) by (simp add: createEmptyBoard_def)
  ultimately show ?thesis using f(2) by blast
qed

lemma findSafeMovesLoop_hidden:
  assumes "\<And>p. p \<in> set ps \<Longrightarrow> \<exists>c. cellAt (cells b) p = Some c \<and> state c = hidden"
  shows "findSafeMovesLoop b ps acc = Some acc"
  using assms
proof (induction ps)
  case Nil
  then show ?case by simp
next
  case (Cons p ps)
  from Cons.prems obtain c where "cellAt (cells b) p = Some c" "state c = hidden" by auto
  moreover from Cons have "findSafeMovesLoop b ps acc = Some acc" by simp
  ultimately show ?case by simp
qed

lemma findSafeMoves_fresh:
  assumes "freshBoard w h M b"
  shows "findSafeMoves b = Some []"
proof -
  note wf = freshBoardD(1)[OF assms] and hid = freshBoardD(5)[OF assms]
  have "\<exists>c. cellAt (cells b) p = Some c \<and> state c = hidden"
    if "p \<in> set (boardPositions (height b) (width b))" for p
  proof -
    from that have "isValidPosition b p" by (simp add: isValidPosition_boardPositions)
    with wf obtain c where "cellAt (cells b) p = Some c" using wellFormed_cellAt by blast
    with hid show ?thesis by blast
  qed
  from findSafeMovesLoop_hidden[OF this, of "boardPositions (height b) (width b)" "[]"]
  show ?thesis by (simp add: findSafeMoves_def removeDuplicatePositions_def)
qed

lemma validateSolvability_fresh:
  assumes "freshBoard w h M b"
  shows "\<exists>solvable. validateSolvability b = Some solvable"
proof -
  have "solveLoop False 1 b = Some (Inr b)" by (subst solveLoop.simps) simp
  then have "solveLoop True 0 b =
      (if revealedCount b \<ge> width b * height b - mineCount b then Some (Inl True) else Some (Inr b))"
    by (subst solveLoop.simps) (simp add: findSafeMoves_fresh[OF assms] del: solveLoop.simps)
  then show ?thesis by (auto simp: validateSolvability_def simp del: solveLoop.simps)
qed

lemma generateLoop_result:
  assumes "validRandom rnd" "validShuffle shuffle"
  shows "\<exists>b. generateLoop rnd shuffle attempts n w h mines sz = Some b
     \<and> freshBoard w h (set (collectAvailable h w sz)) b \<and> revealedCount b = 0"
  using assms
proof (induction rnd shuffle attempts n w h mines sz rule: generateLoop.induct)
  case (1 rnd shuffle attempts n w h mines sz)
  show ?case
  proof (cases "attempts < 50")
    case False
    then have "generateLoop rnd shuffle attempts n w h mines sz
        = placeMines shuffle (createEmptyBoard w h) mines sz"
      by (subst generateLoop.simps) simp
    with placeMines_result[OF "1.prems"(2), of w h mines sz] show ?thesis by simp
  next
    case True
    from createBoardWithMines_result[OF "1.prems"(1), of n w h mines sz] obtain board n' where
      c: "createBoardWithMines rnd n w h mines sz = Some (board, n')"
         "freshBoard w h (set (collectAvailable h w sz)) board" "revealedCount board = 0" by blast
    from validateSolvability_fresh[OF c(2)] obtain solvable where
      v: "validateSolvability board = Some solvable" by blast
    show ?thesis
    proof (cases solvable)
      case s: True
      have "generateLoop rnd shuffle attempts n w h mines sz = Some board"
        by (subst generateLoop.simps) (simp add: True c(1) v s optimizeMineDistribution_def)
      with c(2,3) show ?thesis by simp
    next
      case s: False
      have "generateLoop rnd shuffle attempts n w h mines sz
          = generateLoop rnd shuffle (attempts + 1) n' w h mines sz"
        by (subst generateLoop.simps) (simp add: True c(1) v s del: generateLoop.simps)
      with "1.IH"[OF True c(1) refl v s "1.prems"] show ?thesis by simp
    qed
  qed
qed

lemma generateBoard_result:
  assumes "validRandom rnd" "validShuffle shuffle"
  shows "\<exists>b. generateBoard rnd shuffle w h mines sz = Some b
     \<and> freshBoard w h (set (collectAvailable h w sz)) b \<and> revealedCount b = 0"
  unfolding generateBoard_def using assms by (rule generateLoop_result)

lemma freshBoard_safeZoneClear:
  assumes "freshBoard w h (set (collectAvailable h w (Some sz))) b"
  shows "safeZoneClear sz b"
  unfolding safeZoneClear_def
proof (intro allI impI notI)
  fix p c
  assume a: "\<bar>row p - row sz\<bar> \<le> 1 \<and> \<bar>col p - col sz\<bar> \<le> 1 \<and> cellAt (cells b) p = Some c"
    and m: "hasMine c"
  from a m freshBoardD(6)[OF assms] have "p \<in> set (collectAvailable h w (Some sz))" by blast
  with a show False by (simp add: collectAvailable_def)
qed

lemma validRandom_zeroRandom: "validRandom zeroRandom"
  by (simp add: validRandom_def zeroRandom_def)

lemma validShuffle_rev: "validShuffle rev"
  by (simp add: validShuffle_def)








lemma cellStep_state: "state c \<noteq> revealed \<and> s \<noteq> revealed \<or> \<not> hasMine c \<Longrightarrow> cellStep c (c\<lparr>state := s\<rparr>)"
  by (auto simp: cellStep_def)
















section \<open>Claims\<close>

text \<open>
  C8. Out-of-bounds positions are no-ops: for every board and every position with
  row < 0, row \<ge> height, col < 0 or col \<ge> width, both \<open>revealCell\<close> and \<open>toggleFlag\<close>
  return the board itself, unmodified, and do not throw.
\<close>

theorem out_of_bounds_noop:
  "row p < 0 \<or> row p \<ge> height board \<or> col p < 0 \<or> col p \<ge> width board \<Longrightarrow>
   revealCell board p = Some board \<and> toggleFlag board p = Some board"
  by (simp add: revealCell_def toggleFlag_def)

theorem out_of_bounds_noop_witness:
  "(row (pos 0 4) < 0 \<or> row (pos 0 4) \<ge> height boardOpened
     \<or> col (pos 0 4) < 0 \<or> col (pos 0 4) \<ge> width boardOpened)
   \<and> revealCell boardOpened (pos 0 4) = Some boardOpened
   \<and> toggleFlag boardOpened (pos 0 4) = Some boardOpened
   \<and> (row (pos (- 1) 0) < 0 \<or> row (pos (- 1) 0) \<ge> height boardOpened
     \<or> col (pos (- 1) 0) < 0 \<or> col (pos (- 1) 0) \<ge> width boardOpened)
   \<and> revealCell boardOpened (pos (- 1) 0) = Some boardOpened
   \<and> toggleFlag boardOpened (pos (- 1) 0) = Some boardOpened"
proof -
  have a: "row (pos 0 4) < 0 \<or> row (pos 0 4) \<ge> height boardOpened
     \<or> col (pos 0 4) < 0 \<or> col (pos 0 4) \<ge> width boardOpened"
    and b: "row (pos (- 1) 0) < 0 \<or> row (pos (- 1) 0) \<ge> height boardOpened
     \<or> col (pos (- 1) 0) < 0 \<or> col (pos (- 1) 0) \<ge> width boardOpened"
    by (simp_all add: pos_def boardOpened_def exampleBoard_def)
  from out_of_bounds_noop[OF a] out_of_bounds_noop[OF b] a b show ?thesis by blast
qed

text \<open>
  C7. Flag toggling: on an in-bounds position whose cell is hidden, \<open>toggleFlag\<close> flags the
  cell and raises the flagged count by one, and a second \<open>toggleFlag\<close> at the same position
  returns a board equal to the original; on a revealed, mine or exploded cell, and on an
  out-of-bounds position, \<open>toggleFlag\<close> returns the board unmodified.
\<close>

theorem toggleFlag_twice_and_locked:
  "(isValidPosition board p \<and> cellAt (cells board) p = Some cl \<and> state cl = hidden \<longrightarrow>
      (\<exists>b1. toggleFlag board p = Some b1 \<and> cellAt (cells b1) p = Some (cl\<lparr>state := flagged\<rparr>)
            \<and> flaggedCount b1 = flaggedCount board + 1 \<and> toggleFlag b1 p = Some board))
   \<and> (cellAt (cells board) p = Some cl \<and> (state cl = revealed \<or> state cl = mine \<or> state cl = exploded) \<longrightarrow>
        toggleFlag board p = Some board)
   \<and> (\<not> isValidPosition board p \<longrightarrow> toggleFlag board p = Some board)"
proof (intro conjI impI)
  assume a: "isValidPosition board p \<and> cellAt (cells board) p = Some cl \<and> state cl = hidden"
  let ?b1 = "board\<lparr>cells := setState (cells board) p flagged, flaggedCount := flaggedCount board + 1\<rparr>"
  from a have 1: "toggleFlag board p = Some ?b1"
    by (auto simp: toggleFlag_def isValidPosition_def)
  from a have c1: "cellAt (cells ?b1) p = Some (cl\<lparr>state := flagged\<rparr>)"
    by (simp add: cellAt_setState_same)
  from a have "setState (setState (cells board) p flagged) p hidden = cells board"
    by (simp add: setState_twice)
  with a c1 have 2: "toggleFlag ?b1 p = Some board"
    by (simp add: toggleFlag_def isValidPosition_def)
  from 1 c1 2 show "\<exists>b1. toggleFlag board p = Some b1 \<and> cellAt (cells b1) p = Some (cl\<lparr>state := flagged\<rparr>)
            \<and> flaggedCount b1 = flaggedCount board + 1 \<and> toggleFlag b1 p = Some board"
    by simp
next
  assume "cellAt (cells board) p = Some cl \<and> (state cl = revealed \<or> state cl = mine \<or> state cl = exploded)"
  then show "toggleFlag board p = Some board" by (auto simp: toggleFlag_def)
next
  assume "\<not> isValidPosition board p"
  then show "toggleFlag board p = Some board" by (auto simp: toggleFlag_def isValidPosition_def)
qed


theorem toggleFlag_twice_and_locked_witness:
  "toggleFlag boardGenerated (pos 0 1) = Some boardZeroFlagged
   \<and> flaggedCount boardZeroFlagged = flaggedCount boardGenerated + 1
   \<and> toggleFlag boardZeroFlagged (pos 0 1) = Some boardGenerated
   \<and> toggleFlag boardOpened (pos 0 0) = Some boardOpened
   \<and> toggleFlag boardLost (pos 1 3) = Some boardLost
   \<and> toggleFlag boardGenerated (pos 2 0) = Some boardGenerated"
proof -
  let ?hd = "exampleCell 0 1 False 0 hidden"
  let ?rv = "exampleCell 0 0 False 0 revealed"
  let ?ex = "exampleCell 1 3 True 0 exploded"
  have h1: "isValidPosition boardGenerated (pos 0 1)
            \<and> cellAt (cells boardGenerated) (pos 0 1) = Some ?hd \<and> state ?hd = hidden"
    by (simp add: isValidPosition_def boardGenerated_def example_defs cellAt_def)
  have h2: "cellAt (cells boardOpened) (pos 0 0) = Some ?rv
            \<and> (state ?rv = revealed \<or> state ?rv = mine \<or> state ?rv = exploded)"
    by (simp add: boardOpened_def example_defs cellAt_def)
  have h3: "cellAt (cells boardLost) (pos 1 3) = Some ?ex
            \<and> (state ?ex = revealed \<or> state ?ex = mine \<or> state ?ex = exploded)"
    by (simp add: boardLost_def example_defs cellAt_def)
  have h4: "\<not> isValidPosition boardGenerated (pos 2 0)"
    by (simp add: isValidPosition_def boardGenerated_def example_defs)
  from h1 toggleFlag_twice_and_locked[of boardGenerated "pos 0 1" ?hd] step_zeroFlagged
  have 1: "flaggedCount boardZeroFlagged = flaggedCount boardGenerated + 1
       \<and> toggleFlag boardZeroFlagged (pos 0 1) = Some boardGenerated" by auto
  from h2 toggleFlag_twice_and_locked[of boardOpened "pos 0 0" ?rv]
  have 2: "toggleFlag boardOpened (pos 0 0) = Some boardOpened" by blast
  from h3 toggleFlag_twice_and_locked[of boardLost "pos 1 3" ?ex]
  have 3: "toggleFlag boardLost (pos 1 3) = Some boardLost" by blast
  from h4 toggleFlag_twice_and_locked[of boardGenerated "pos 2 0"]
  have 4: "toggleFlag boardGenerated (pos 2 0) = Some boardGenerated" by blast
  from 1 2 3 4 step_zeroFlagged show ?thesis by simp
qed




text \<open>
  C2 (amended). \<open>toggleFlag\<close> never changes \<open>gameStatus\<close>, and \<open>revealCell\<close> either leaves it
  unchanged or sets it to \<open>won\<close> or \<open>lost\<close>; so over every sequence of \<open>revealCell\<close> and
  \<open>toggleFlag\<close> calls a board whose status is \<open>won\<close> or \<open>lost\<close> never returns to \<open>playing\<close>.
  \<open>revealCell\<close> itself does not refuse a finished board; it is the click handlers of the
  board component that leave the board unchanged once its status is not \<open>playing\<close>.
\<close>

theorem status_transitions:
  "(toggleFlag board p = Some board' \<longrightarrow> gameStatus board' = gameStatus board)
   \<and> (revealCell board p = Some board' \<longrightarrow>
        gameStatus board' = gameStatus board \<or> gameStatus board' = won \<or> gameStatus board' = lost)
   \<and> (applyOperations board ops = Some board' \<and> gameStatus board \<noteq> playing \<longrightarrow>
        gameStatus board' \<noteq> playing)
   \<and> (gameStatus board \<noteq> playing \<longrightarrow>
        handleCellClick rnd shuffle mines board p = Some board
        \<and> handleCellRightClick board p = Some board)"
  using toggleFlag_status revealCell_status applyOperations_status
  by (simp add: handleCellClick_def handleCellRightClick_def) blast

theorem status_transitions_witness:
  "toggleFlag boardOpened (pos 0 3) = Some boardWrongFlag
   \<and> gameStatus boardWrongFlag = gameStatus boardOpened
   \<and> revealCell boardOpened (pos 0 3) = Some boardWon
   \<and> gameStatus boardWon = won
   \<and> applyOperations boardWon [ToggleFlag (pos 1 3), ToggleFlag (pos 1 3)] = Some boardWon
   \<and> gameStatus boardWon \<noteq> playing
   \<and> handleCellClick zeroRandom rev 1 boardWon (pos 1 3) = Some boardWon
   \<and> handleCellRightClick boardWon (pos 1 3) = Some boardWon"
proof -
  have a: "applyOperations boardWon [ToggleFlag (pos 1 3), ToggleFlag (pos 1 3)] = Some boardWon"
    by (simp add: toggleFlag_def boardWon_def example_defs eval_defs)
  have s: "gameStatus boardWon \<noteq> playing" by (simp add: boardWon_def example_defs)
  from status_transitions[of boardOpened "pos 0 3" boardWrongFlag "[]" zeroRandom rev 1] step_wrongFlag
  have 1: "gameStatus boardWrongFlag = gameStatus boardOpened" by simp
  from status_transitions[of boardOpened "pos 0 3" boardWon "[]" zeroRandom rev 1] step_won
  have 2: "gameStatus boardWon = gameStatus boardOpened \<or> gameStatus boardWon = won \<or> gameStatus boardWon = lost"
    by simp
  from status_transitions[of boardWon "pos 1 3" boardWon "[ToggleFlag (pos 1 3), ToggleFlag (pos 1 3)]" zeroRandom rev 1] a s
  have 3: "handleCellClick zeroRandom rev 1 boardWon (pos 1 3) = Some boardWon
        \<and> handleCellRightClick boardWon (pos 1 3) = Some boardWon" by simp
  from 2 have "gameStatus boardWon = won" by (simp add: boardWon_def boardOpened_def example_defs)
  with 1 3 a s step_wrongFlag step_won show ?thesis by simp
qed

text \<open>
  C2 as stated fails: in the example game the board is \<open>won\<close> after two reveals, and a
  further \<open>revealCell\<close> on the mine turns it to \<open>lost\<close>.
\<close>

theorem status_not_terminal_counterexample:
  "generateBoard zeroRandom rev 4 2 1 (Some (pos 0 0)) = Some boardGenerated
   \<and> revealCell boardGenerated (pos 0 0) = Some boardOpened
   \<and> revealCell boardOpened (pos 0 3) = Some boardWon
   \<and> gameStatus boardWon = won
   \<and> revealCell boardWon (pos 1 3) = Some boardWonThenLost
   \<and> gameStatus boardWonThenLost = lost"
proof -
  have "gameStatus boardWon = won" by (simp add: boardWon_def exampleBoard_def)
  moreover have "gameStatus boardWonThenLost = lost" by (simp add: boardWonThenLost_def exampleBoard_def)
  ultimately show ?thesis using step_generated step_opened step_won step_wonThenLost by blast
qed

text \<open>
  C3 (amended). Flood fill: for every well-formed board in status \<open>playing\<close>, \<open>revealCell\<close> on
  a hidden zero-clue non-mine cell reveals exactly the cells of \<open>floodRegion\<close>: the maximal
  Chebyshev-connected region of hidden zero-clue non-mine cells that contains the cell, plus
  the hidden non-mine cells adjacent to that region. Every other cell is unchanged (flagged
  cells are neither revealed nor traversed), and no mined cell is revealed.
\<close>

theorem flood_fill_region:
  assumes "wellFormed board" and "gameStatus board = playing"
    and "cellAt (cells board) p = Some cl"
    and "state cl = hidden" and "\<not> hasMine cl" and "adjacentMines cl = 0"
  shows "\<exists>board'. revealCell board p = Some board'
     \<and> (\<forall>q. cellAt (cells board') q
            = map_option (revealedAt (floodRegion board p) q) (cellAt (cells board) q))
     \<and> (\<forall>q c. q \<in> floodRegion board p \<and> cellAt (cells board) q = Some c \<longrightarrow>
            state c = hidden \<and> \<not> hasMine c)"
proof -
  let ?nb0 = "board\<lparr>firstClick := False, cells := setState (cells board) p revealed,
                revealedCount := revealedCount board + 1\<rparr>"
  from assms(1,3) have "isValidPosition board p" using wellFormed_cellAt_iff by blast
  then have nb: "\<not> (row p < 0 \<or> row p \<ge> height board \<or> col p < 0 \<or> col p \<ge> width board)"
    by (auto simp: isValidPosition_def)
  from assms(3-6) have hz: "hiddenZero board p" by (simp add: hiddenZero_def)
  from floodFill_correct[OF assms(1) hz floodInv_initial[OF hz assms(3)]]
  obtain nb' where f:
    "floodFill ?nb0 [p] {} = Some nb'"
    "\<forall>q. cellAt (cells nb') q = map_option (revealedAt (floodRegion board p) q) (cellAt (cells board) q)"
    by blast
  let ?r = "if revealedCount nb' = width board * height board - mineCount board
            then nb'\<lparr>gameStatus := won\<rparr> else nb'"
  have "revealCell board p = Some ?r"
    unfolding revealCell_def using nb assms(3-6) f(1)
    by (simp add: Let_def del: floodFill.simps split del: if_split cong: if_cong)
  moreover have "cells ?r = cells nb'" by simp
  moreover have "state c = hidden \<and> \<not> hasMine c"
    if "q \<in> floodRegion board p \<and> cellAt (cells board) q = Some c" for q c
    using floodRegion_hiddenSafe[OF hz, of q] that by (simp add: hiddenSafe_def)
  ultimately show ?thesis using f(2) by (metis (no_types, lifting))
qed


theorem flood_fill_region_witness:
  "wellFormed boardGenerated \<and> gameStatus boardGenerated = playing
   \<and> cellAt (cells boardGenerated) (pos 0 0) = Some (exampleCell 0 0 False 0 hidden)
   \<and> revealCell boardGenerated (pos 0 0) = Some boardOpened
   \<and> pos 0 2 \<in> floodRegion boardGenerated (pos 0 0)
   \<and> pos 0 3 \<notin> floodRegion boardGenerated (pos 0 0)
   \<and> pos 1 3 \<notin> floodRegion boardGenerated (pos 0 0)"
proof -
  let ?cl = "exampleCell 0 0 False 0 hidden"
  let ?R = "floodRegion boardGenerated (pos 0 0)"
  have h: "wellFormed boardGenerated" "gameStatus boardGenerated = playing"
    "cellAt (cells boardGenerated) (pos 0 0) = Some ?cl"
    "state ?cl = hidden" "\<not> hasMine ?cl" "adjacentMines ?cl = 0"
    by (simp_all add: wellFormed_def boardGenerated_def example_defs cellAt_def)
  from flood_fill_region[OF h] step_opened
  have c: "cellAt (cells boardOpened) q = map_option (revealedAt ?R q) (cellAt (cells boardGenerated) q)" for q
    by simp
  have "cellAt (cells boardOpened) (pos 0 2) \<noteq> cellAt (cells boardGenerated) (pos 0 2)"
    by (simp add: boardOpened_def boardGenerated_def example_defs cellAt_def)
  then have 1: "pos 0 2 \<in> ?R" unfolding c using revealedAt_notin[of "pos 0 2" ?R] by blast
  have g: "cellAt (cells boardGenerated) (pos 0 3) = Some (exampleCell 0 3 False 1 hidden)"
    "cellAt (cells boardGenerated) (pos 1 3) = Some (exampleCell 1 3 True 0 hidden)"
    by (simp_all add: boardGenerated_def example_defs cellAt_def)
  have "cellAt (cells boardOpened) (pos 0 3) = Some (exampleCell 0 3 False 1 hidden)"
    by (simp add: boardOpened_def example_defs cellAt_def)
  then have 2: "pos 0 3 \<notin> ?R" unfolding c g by (auto simp: revealedAt_def exampleCell_def)
  have "cellAt (cells boardOpened) (pos 1 3) = Some (exampleCell 1 3 True 0 hidden)"
    by (simp add: boardOpened_def example_defs cellAt_def)
  then have 3: "pos 1 3 \<notin> ?R" unfolding c g by (auto simp: revealedAt_def exampleCell_def)
  from h step_opened 1 2 3 show ?thesis by simp
qed

text \<open>
  C3 as stated fails: a flagged zero-clue non-mine cell adjacent to the revealed cell belongs
  to the connected region of zero-clue non-mine cells, and stays flagged.
\<close>

theorem flagged_zero_cell_counterexample:
  "generateBoard zeroRandom rev 4 2 1 (Some (pos 0 0)) = Some boardGenerated
   \<and> toggleFlag boardGenerated (pos 0 1) = Some boardZeroFlagged
   \<and> gameStatus boardZeroFlagged = playing
   \<and> cellAt (cells boardZeroFlagged) (pos 0 0) = Some (exampleCell 0 0 False 0 hidden)
   \<and> cellAt (cells boardZeroFlagged) (pos 0 1) = Some (exampleCell 0 1 False 0 flagged)
   \<and> adjacent (pos 0 0) (pos 0 1)
   \<and> revealCell boardZeroFlagged (pos 0 0) = Some boardZeroFlaggedOpened
   \<and> cellAt (cells boardZeroFlaggedOpened) (pos 0 1) = Some (exampleCell 0 1 False 0 flagged)"
proof -
  have "gameStatus boardZeroFlagged = playing"
    "cellAt (cells boardZeroFlagged) (pos 0 0) = Some (exampleCell 0 0 False 0 hidden)"
    "cellAt (cells boardZeroFlagged) (pos 0 1) = Some (exampleCell 0 1 False 0 flagged)"
    "adjacent (pos 0 0) (pos 0 1)"
    "cellAt (cells boardZeroFlaggedOpened) (pos 0 1) = Some (exampleCell 0 1 False 0 flagged)"
    by (simp_all add: boardZeroFlagged_def boardZeroFlaggedOpened_def example_defs cellAt_def adjacent_def)
  with step_generated step_zeroFlagged step_zeroFlaggedOpened show ?thesis by simp
qed

text \<open>
  C4 (amended). Win detection: for every well-formed board and every position, \<open>revealCell\<close>
  returns a board with the same width, height and mineCount, and
  (1) if the given board is not already \<open>won\<close> and its \<open>revealedCount\<close> is not already
  width \<times> height - mineCount, the returned board has status \<open>won\<close> if and only if its
  \<open>revealedCount\<close> equals width \<times> height - mineCount;
  (2) if the given board is not already \<open>won\<close>, the returned board has status \<open>won\<close> only
  if its \<open>revealedCount\<close> equals width \<times> height - mineCount: the status never becomes
  \<open>won\<close> at another count;
  (3) if the \<open>revealedCount\<close> of the given board is not already width \<times> height - mineCount,
  the returned board has status \<open>won\<close> whenever its \<open>revealedCount\<close> equals
  width \<times> height - mineCount.
\<close>

theorem win_detection:
  assumes "wellFormed board"
  shows "\<exists>board'. revealCell board p = Some board'
     \<and> width board' = width board \<and> height board' = height board
     \<and> mineCount board' = mineCount board
     \<and> (gameStatus board \<noteq> won
          \<and> revealedCount board \<noteq> width board * height board - mineCount board \<longrightarrow>
          (gameStatus board' = won \<longleftrightarrow>
           revealedCount board' = width board' * height board' - mineCount board'))
     \<and> (gameStatus board \<noteq> won \<and> gameStatus board' = won \<longrightarrow>
          revealedCount board' = width board' * height board' - mineCount board')
     \<and> (revealedCount board \<noteq> width board * height board - mineCount board
          \<and> revealedCount board' = width board' * height board' - mineCount board' \<longrightarrow>
          gameStatus board' = won)"
proof (cases "isValidPosition board p")
  case False
  then have "revealCell board p = Some board" by (simp add: revealCell_noop)
  then show ?thesis by simp
next
  case True
  with assms obtain cl where cl: "cellAt (cells board) p = Some cl"
    using wellFormed_cellAt by blast
  show ?thesis
  proof (cases "state cl = revealed \<or> state cl = flagged")
    case True
    with cl have "revealCell board p = Some board" by (simp add: revealCell_noop)
    then show ?thesis by simp
  next
    case False
    then have st: "state cl \<noteq> revealed" "state cl \<noteq> flagged" by simp_all
    show ?thesis
    proof (cases "hasMine cl")
      case True
      from revealCell_mine[OF assms \<open>isValidPosition board p\<close> cl st True]
      obtain cs where "revealCell board p = Some (board\<lparr>firstClick := False, cells := cs, gameStatus := lost\<rparr>)"
        by blast
      then show ?thesis by simp
    next
      case False
      from revealCell_safe[OF assms \<open>isValidPosition board p\<close> cl st False]
      obtain cs n where "revealCell board p =
        Some (if n = width board * height board - mineCount board
              then board\<lparr>firstClick := False, cells := cs, revealedCount := n, gameStatus := won\<rparr>
              else board\<lparr>firstClick := False, cells := cs, revealedCount := n\<rparr>)" by blast
      then show ?thesis by simp
    qed
  qed
qed

theorem win_detection_witness:
  "wellFormed boardOpened \<and> gameStatus boardOpened \<noteq> won
   \<and> revealedCount boardOpened \<noteq> width boardOpened * height boardOpened - mineCount boardOpened
   \<and> revealCell boardOpened (pos 0 3) = Some boardWon
   \<and> gameStatus boardWon = won
   \<and> revealedCount boardWon = width boardWon * height boardWon - mineCount boardWon
   \<and> wellFormed boardLost \<and> gameStatus boardLost \<noteq> won
   \<and> revealedCount boardLost \<noteq> width boardLost * height boardLost - mineCount boardLost
   \<and> revealCell boardLost (pos 0 3) = Some boardLostThenWon
   \<and> gameStatus boardLostThenWon = won
   \<and> revealedCount boardLostThenWon
       = width boardLostThenWon * height boardLostThenWon - mineCount boardLostThenWon"
proof -
  have h: "wellFormed boardOpened" "gameStatus boardOpened \<noteq> won"
    "revealedCount boardOpened \<noteq> width boardOpened * height boardOpened - mineCount boardOpened"
    "gameStatus boardWon = won"
    by (simp_all add: wellFormed_def boardOpened_def boardWon_def example_defs)
  have k: "wellFormed boardLost" "gameStatus boardLost \<noteq> won"
    "revealedCount boardLost \<noteq> width boardLost * height boardLost - mineCount boardLost"
    "gameStatus boardLostThenWon = won"
    by (simp_all add: wellFormed_def boardLost_def boardLostThenWon_def example_defs)
  from win_detection[OF h(1), of "pos 0 3"] step_won h(2,4)
  have 1: "revealedCount boardWon = width boardWon * height boardWon - mineCount boardWon"
    by simp
  from win_detection[OF k(1), of "pos 0 3"] step_lostThenWon k(2,4)
  have 2: "revealedCount boardLostThenWon
       = width boardLostThenWon * height boardLostThenWon - mineCount boardLostThenWon"
    by simp
  from h k 1 2 step_won step_lostThenWon show ?thesis by simp
qed

text \<open>
  C4 as stated fails, on boards that the operations build.
  On the won example board, revealing the mine gives a board whose \<open>revealedCount\<close> equals
  width \<times> height - mineCount and whose status is \<open>lost\<close>.
  The board \<open>boardSingleMine\<close> of one cell and one mine is in status \<open>playing\<close> with
  \<open>revealedCount\<close> 0 = 1 \<times> 1 - 1; revealing its cell gives status \<open>lost\<close> at that count.
  On \<open>boardExcessWon\<close>, where three mines were asked for and two could be placed, the status
  is \<open>won\<close> at \<open>revealedCount\<close> 1 = 4 \<times> 1 - 3 with the cell (0, 0) still hidden; revealing it
  gives a board of status \<open>won\<close> with \<open>revealedCount\<close> 2, and revealing it once more returns
  that board.
\<close>

theorem win_iff_count_counterexample:
  "revealCell boardWon (pos 1 3) = Some boardWonThenLost
   \<and> revealedCount boardWonThenLost
       = width boardWonThenLost * height boardWonThenLost - mineCount boardWonThenLost
   \<and> gameStatus boardWonThenLost \<noteq> won
   \<and> gameStatus boardSingleMine = playing
   \<and> revealCell boardSingleMine (pos 0 0) = Some boardSingleMineLost
   \<and> revealedCount boardSingleMineLost
       = width boardSingleMineLost * height boardSingleMineLost - mineCount boardSingleMineLost
   \<and> gameStatus boardSingleMineLost \<noteq> won
   \<and> revealCell boardExcessWon (pos 0 0) = Some boardExcessOver
   \<and> revealCell boardExcessOver (pos 0 0) = Some boardExcessOver
   \<and> gameStatus boardExcessOver = won
   \<and> revealedCount boardExcessOver
       \<noteq> width boardExcessOver * height boardExcessOver - mineCount boardExcessOver"
proof -
  have "revealedCount boardWonThenLost
       = width boardWonThenLost * height boardWonThenLost - mineCount boardWonThenLost"
    and "gameStatus boardWonThenLost \<noteq> won"
    by (simp_all add: boardWonThenLost_def exampleBoard_def)
  moreover have "gameStatus boardSingleMine = playing"
    and "revealedCount boardSingleMineLost
       = width boardSingleMineLost * height boardSingleMineLost - mineCount boardSingleMineLost"
    and "gameStatus boardSingleMineLost \<noteq> won"
    by (simp_all add: boardSingleMine_def boardSingleMineLost_def)
  moreover have "gameStatus boardExcessOver = won"
    and "revealedCount boardExcessOver
       \<noteq> width boardExcessOver * height boardExcessOver - mineCount boardExcessOver"
    by (simp_all add: boardExcessOver_def excessBoard_def)
  ultimately show ?thesis
    using step_wonThenLost step_singleMineLost step_excessOver step_excessOver_again by blast
qed

text \<open>
  C5 (amended). Loss detection: for every well-formed board in status \<open>playing\<close> with no
  exploded cell, \<open>revealCell\<close> on a mined cell that is neither flagged nor revealed returns a
  board with status \<open>lost\<close> in which that cell is \<open>exploded\<close>, every other mined cell has
  state \<open>mine\<close>, and the cells without a mine are unchanged.
\<close>

theorem loss_detection:
  assumes "wellFormed board" and "gameStatus board = playing" and "noExploded board"
    and "cellAt (cells board) p = Some cl" and "hasMine cl"
    and "state cl \<noteq> flagged" and "state cl \<noteq> revealed"
  shows "\<exists>board'. revealCell board p = Some board'
     \<and> gameStatus board' = lost
     \<and> cellAt (cells board') p = Some (cl\<lparr>state := exploded\<rparr>)
     \<and> (\<forall>q c. q \<noteq> p \<and> cellAt (cells board) q = Some c \<and> hasMine c \<longrightarrow>
            cellAt (cells board') q = Some (c\<lparr>state := mine\<rparr>))
     \<and> (\<forall>q c. cellAt (cells board) q = Some c \<and> \<not> hasMine c \<longrightarrow>
            cellAt (cells board') q = Some c)"
proof -
  from assms(1,4) have v: "isValidPosition board p" using wellFormed_cellAt_iff by blast
  from revealCell_mine[OF assms(1) v assms(4) assms(7) assms(6) assms(5)]
  obtain cs where r:
    "revealCell board p = Some (board\<lparr>firstClick := False, cells := cs, gameStatus := lost\<rparr>)"
    "\<forall>q. cellAt cs q = map_option (shownMine p q) (cellAt (cells board) q)" by blast
  let ?b = "board\<lparr>firstClick := False, cells := cs, gameStatus := lost\<rparr>"
  have c: "cellAt (cells ?b) q = map_option (shownMine p q) (cellAt (cells board) q)" for q
    using r(2) by simp
  have ne: "state c \<noteq> exploded" if "cellAt (cells board) q = Some c" for q c
  proof -
    from cellAt_SomeD[OF that] have "cells board ! nat (row q) \<in> set (cells board)"
      and "c \<in> set (cells board ! nat (row q))" by (auto intro: nth_mem)
    with assms(3) show ?thesis unfolding noExploded_def by blast
  qed
  have 1: "cellAt (cells ?b) p = Some (cl\<lparr>state := exploded\<rparr>)"
    unfolding c assms(4) by (simp add: shownMine_def)
  have 2: "cellAt (cells ?b) q = Some (c\<lparr>state := mine\<rparr>)"
    if "q \<noteq> p \<and> cellAt (cells board) q = Some c \<and> hasMine c" for q c
    unfolding c using that ne[of q c] by (simp add: shownMine_def)
  have 3: "cellAt (cells ?b) q = Some c"
    if "cellAt (cells board) q = Some c \<and> \<not> hasMine c" for q c
  proof -
    from that assms(4,5) have "q \<noteq> p" by auto
    with that show ?thesis unfolding c by (simp add: shownMine_def)
  qed
  have "gameStatus ?b = lost" by simp
  with r(1) 1 2 3 show ?thesis by blast
qed

theorem loss_detection_witness:
  "wellFormed boardTwoMinesOpened \<and> gameStatus boardTwoMinesOpened = playing
   \<and> noExploded boardTwoMinesOpened
   \<and> cellAt (cells boardTwoMinesOpened) (pos 1 3) = Some (exampleCell 1 3 True 0 hidden)
   \<and> cellAt (cells boardTwoMinesOpened) (pos 1 2) = Some (exampleCell 1 2 True 0 hidden)
   \<and> revealCell boardTwoMinesOpened (pos 1 3) = Some boardTwoMinesLost
   \<and> gameStatus boardTwoMinesLost = lost
   \<and> cellAt (cells boardTwoMinesLost) (pos 1 3) = Some (exampleCell 1 3 True 0 exploded)
   \<and> cellAt (cells boardTwoMinesLost) (pos 1 2) = Some (exampleCell 1 2 True 0 mine)"
proof -
  let ?cl = "exampleCell 1 3 True 0 hidden"
  let ?c2 = "exampleCell 1 2 True 0 hidden"
  have h: "wellFormed boardTwoMinesOpened" "gameStatus boardTwoMinesOpened = playing"
    "noExploded boardTwoMinesOpened"
    "cellAt (cells boardTwoMinesOpened) (pos 1 3) = Some ?cl" "hasMine ?cl"
    "state ?cl \<noteq> flagged" "state ?cl \<noteq> revealed"
    by (simp_all add: wellFormed_def noExploded_def boardTwoMinesOpened_def twoMineCells_def
        example_defs cellAt_def)
  have o: "pos 1 2 \<noteq> pos 1 3" "cellAt (cells boardTwoMinesOpened) (pos 1 2) = Some ?c2" "hasMine ?c2"
    by (simp_all add: boardTwoMinesOpened_def twoMineCells_def example_defs cellAt_def)
  from loss_detection[OF h] step_twoMinesLost
  have r: "gameStatus boardTwoMinesLost = lost"
    "cellAt (cells boardTwoMinesLost) (pos 1 3) = Some (?cl\<lparr>state := exploded\<rparr>)"
    "\<forall>q c. q \<noteq> pos 1 3 \<and> cellAt (cells boardTwoMinesOpened) q = Some c \<and> hasMine c \<longrightarrow>
            cellAt (cells boardTwoMinesLost) q = Some (c\<lparr>state := mine\<rparr>)"
    by simp_all
  from r(3) o have "cellAt (cells boardTwoMinesLost) (pos 1 2) = Some (?c2\<lparr>state := mine\<rparr>)" by blast
  moreover have "?cl\<lparr>state := exploded\<rparr> = exampleCell 1 3 True 0 exploded"
    "?c2\<lparr>state := mine\<rparr> = exampleCell 1 2 True 0 mine"
    by (simp_all add: exampleCell_def)
  ultimately show ?thesis using h o r step_twoMinesLost by simp
qed

text \<open>
  C5 as stated fails: \<open>revealCell\<close> on a flagged mine returns the board unchanged, still
  \<open>playing\<close>.
\<close>

theorem flagged_mine_not_lost_counterexample:
  "generateBoard zeroRandom rev 4 2 1 (Some (pos 0 0)) = Some boardGenerated
   \<and> toggleFlag boardGenerated (pos 1 3) = Some boardMineFlagged
   \<and> gameStatus boardMineFlagged = playing
   \<and> cellAt (cells boardMineFlagged) (pos 1 3) = Some (exampleCell 1 3 True 0 flagged)
   \<and> hasMine (exampleCell 1 3 True 0 flagged)
   \<and> revealCell boardMineFlagged (pos 1 3) = Some boardMineFlagged
   \<and> gameStatus boardMineFlagged \<noteq> lost"
proof -
  have "gameStatus boardMineFlagged = playing"
    "cellAt (cells boardMineFlagged) (pos 1 3) = Some (exampleCell 1 3 True 0 flagged)"
    "hasMine (exampleCell 1 3 True 0 flagged)"
    by (simp_all add: boardMineFlagged_def example_defs cellAt_def)
  with step_generated step_mineFlagged step_mineFlagged_reveal show ?thesis by simp
qed

text \<open>
  C6. First-click safety: whatever values \<^verbatim>\<open>Math.random()\<close> returns in [0, 1) and however
  the shuffle reorders the array, \<open>generateBoard\<close> called with a safe zone returns a board of
  the requested dimensions in which no cell within Chebyshev distance 1 of the safe zone has
  a mine; so do the anti-clustering placement (\<open>createBoardWithMines\<close>) and the fallback
  placement (\<open>placeMines\<close>) on their own.
\<close>

theorem first_click_safety:
  assumes "validRandom rnd" and "validShuffle shuffle"
  shows "(\<exists>board. generateBoard rnd shuffle w h mines (Some safeZone) = Some board
            \<and> wellFormed board \<and> width board = w \<and> height board = h
            \<and> safeZoneClear safeZone board)
     \<and> (\<exists>board n'. createBoardWithMines rnd n w h mines (Some safeZone) = Some (board, n')
            \<and> safeZoneClear safeZone board)
     \<and> (\<exists>board. placeMines shuffle (createEmptyBoard w h) mines (Some safeZone) = Some board
            \<and> safeZoneClear safeZone board)"
proof (intro conjI)
  from generateBoard_result[OF assms, of w h mines "Some safeZone"] obtain b where
    "generateBoard rnd shuffle w h mines (Some safeZone) = Some b"
    "freshBoard w h (set (collectAvailable h w (Some safeZone))) b" by blast
  then show "\<exists>board. generateBoard rnd shuffle w h mines (Some safeZone) = Some board
            \<and> wellFormed board \<and> width board = w \<and> height board = h
            \<and> safeZoneClear safeZone board"
    using freshBoardD(1,2,3) freshBoard_safeZoneClear by blast
  from createBoardWithMines_result[OF assms(1), of n w h mines "Some safeZone"]
  show "\<exists>board n'. createBoardWithMines rnd n w h mines (Some safeZone) = Some (board, n')
            \<and> safeZoneClear safeZone board"
    using freshBoard_safeZoneClear by blast
  from placeMines_result[OF assms(2), of w h mines "Some safeZone"]
  show "\<exists>board. placeMines shuffle (createEmptyBoard w h) mines (Some safeZone) = Some board
            \<and> safeZoneClear safeZone board"
    using freshBoard_safeZoneClear by blast
qed

theorem first_click_safety_witness:
  "validRandom zeroRandom \<and> validShuffle rev
   \<and> generateBoard zeroRandom rev 4 2 1 (Some (pos 0 0)) = Some boardGenerated
   \<and> safeZoneClear (pos 0 0) boardGenerated
   \<and> cellAt (cells boardGenerated) (pos 1 1) = Some (exampleCell 1 1 False 0 hidden)
   \<and> \<not> hasMine (exampleCell 1 1 False 0 hidden)"
proof -
  from first_click_safety[OF validRandom_zeroRandom validShuffle_rev, of 4 2 1 "pos 0 0" 0]
    step_generated
  have s: "safeZoneClear (pos 0 0) boardGenerated" by simp
  have c: "cellAt (cells boardGenerated) (pos 1 1) = Some (exampleCell 1 1 False 0 hidden)"
    by (simp add: boardGenerated_def example_defs cellAt_def)
  have "\<bar>row (pos 1 1) - row (pos 0 0)\<bar> \<le> 1 \<and> \<bar>col (pos 1 1) - col (pos 0 0)\<bar> \<le> 1"
    by (simp add: pos_def)
  with s c have "\<not> hasMine (exampleCell 1 1 False 0 hidden)" unfolding safeZoneClear_def by blast
  with s c validRandom_zeroRandom validShuffle_rev step_generated show ?thesis by simp
qed

text \<open>
  C9. Dead logical branch: \<open>findLogicalMoves\<close> never returns a non-empty list (on a
  well-formed board it returns the empty list), and \<open>analyzeBoard\<close> never returns a hint of
  move type \<open>logical\<close>.
\<close>

theorem findLogicalMoves_empty:
  "(wellFormed board \<longrightarrow> findLogicalMoves board = Some [])
   \<and> (\<forall>ms. findLogicalMoves board = Some ms \<longrightarrow> ms = [])
   \<and> (\<forall>hint. analyzeBoard board = Some (Some hint) \<longrightarrow> moveType hint \<noteq> logical)"
proof (intro conjI impI allI)
  assume "wellFormed board"
  then show "findLogicalMoves board = Some []"
    unfolding findLogicalMoves_def
    by (rule findLogicalMovesLoop_wellFormed) (simp add: isValidPosition_boardPositions)
next
  fix ms assume "findLogicalMoves board = Some ms"
  then show "ms = []" unfolding findLogicalMoves_def by (rule findLogicalMovesLoop_result)
next
  fix hint assume a: "analyzeBoard board = Some (Some hint)"
  have e: "\<And>ms. findLogicalMoves board = Some ms \<Longrightarrow> ms = []"
    unfolding findLogicalMoves_def by (rule findLogicalMovesLoop_result)
  show "moveType hint \<noteq> logical"
  proof (cases "findLogicalMoves board")
    case None
    with a show ?thesis
      by (auto simp: analyzeBoard_def split: if_splits option.splits list.splits)
  next
    case (Some ms)
    with e have "findLogicalMoves board = Some []" by simp
    with a show ?thesis
      by (auto simp: analyzeBoard_def split: if_splits option.splits list.splits)
  qed
qed

theorem findLogicalMoves_empty_witness:
  "wellFormed boardOpened
   \<and> findLogicalMoves boardOpened = Some []
   \<and> analyzeBoard boardOpened =
       Some (Some \<lparr>suggestedMove = pos 0 3, moveType = probability, confidence = 1 / 2,
                   reasoning = ''This cell has a 50% chance of being safe based on probability analysis.''\<rparr>)
   \<and> moveType \<lparr>suggestedMove = pos 0 3, moveType = probability, confidence = 1 / 2,
                   reasoning = ''This cell has a 50% chance of being safe based on probability analysis.''\<rparr>
       \<noteq> logical"
proof -
  have wf: "wellFormed boardOpened" by (simp add: wellFormed_def boardOpened_def example_defs)
  with findLogicalMoves_empty[of boardOpened] have 1: "findLogicalMoves boardOpened = Some []" by blast
  from findLogicalMoves_empty[of boardOpened] hint_opened
  have "moveType \<lparr>suggestedMove = pos 0 3, moveType = probability, confidence = 1 / 2,
                   reasoning = ''This cell has a 50% chance of being safe based on probability analysis.''\<rparr>
       \<noteq> logical" by blast
  with wf 1 hint_opened show ?thesis by blast
qed

text \<open>
  C10. \<open>calculateMineCount\<close>: with fewer than 3 games played the result is the base mine
  count of the preferred tier; with 3 or more it is
  max(floor(0.7 \<times> baseMines), min(maxMines, baseMines + adjustment)), the adjustment being the
  sum of the win-rate, recent-trend, streak-bonus and hint-overuse adjustments, and so lies
  between floor(0.7 \<times> baseMines) and maxMines inclusive.
\<close>

theorem calculateMineCount_bounds:
  "(gamesPlayed s < 3 \<longrightarrow>
      calculateMineCount s = baseMines (difficultySettings (preferredDifficulty s)))
   \<and> (gamesPlayed s \<ge> 3 \<longrightarrow>
      calculateMineCount s =
        max \<lfloor>(7 / 10) * real_of_int (baseMines (difficultySettings (preferredDifficulty s)))\<rfloor>
            (min (maxMines (difficultySettings (preferredDifficulty s)))
                 (baseMines (difficultySettings (preferredDifficulty s))
                  + (winRateAdjustment s + recentTrendAdjustment s
                     + streakBonusAdjustment s + hintOveruseAdjustment s)))
      \<and> \<lfloor>(7 / 10) * real_of_int (baseMines (difficultySettings (preferredDifficulty s)))\<rfloor>
          \<le> calculateMineCount s
      \<and> calculateMineCount s \<le> maxMines (difficultySettings (preferredDifficulty s)))"
proof (intro conjI impI)
  assume "gamesPlayed s < 3"
  then show "calculateMineCount s = baseMines (difficultySettings (preferredDifficulty s))"
    by (simp add: calculateMineCount_def)
next
  assume g: "gamesPlayed s \<ge> 3"
  let ?st = "difficultySettings (preferredDifficulty s)"
  let ?adj = "winRateAdjustment s + recentTrendAdjustment s + streakBonusAdjustment s + hintOveruseAdjustment s"
  have c: "(7 / 10) * real_of_int (baseMines ?st) = real_of_int (baseMines ?st) * (7 / 10)" by simp
  show eq: "calculateMineCount s = max \<lfloor>(7 / 10) * real_of_int (baseMines ?st)\<rfloor>
            (min (maxMines ?st) (baseMines ?st + ?adj))"
    unfolding c using g by (rule calculateMineCount_unfold)
  show "\<lfloor>(7 / 10) * real_of_int (baseMines ?st)\<rfloor> \<le> calculateMineCount s"
    unfolding eq by simp
  have "\<lfloor>(7 / 10) * real_of_int (baseMines ?st)\<rfloor> \<le> maxMines ?st"
    unfolding c floor_base by (cases "preferredDifficulty s") simp_all
  then show "calculateMineCount s \<le> maxMines ?st"
    unfolding eq by simp
qed

theorem calculateMineCount_bounds_witness:
  "calculateMineCount \<lparr>gamesPlayed = 2, gamesWon = 2, averageTime = 30, hintsUsed = 0,
       currentStreak = 2, preferredDifficulty = beginner\<rparr> = 10
   \<and> calculateMineCount \<lparr>gamesPlayed = 10, gamesWon = 9, averageTime = 30, hintsUsed = 0,
       currentStreak = 6, preferredDifficulty = beginner\<rparr> = 15
   \<and> calculateMineCount \<lparr>gamesPlayed = 10, gamesWon = 1, averageTime = 30, hintsUsed = 40,
       currentStreak = - 4, preferredDifficulty = expert\<rparr> = 92"
proof -
  let ?a = "\<lparr>gamesPlayed = 2, gamesWon = 2, averageTime = 30, hintsUsed = 0,
       currentStreak = 2, preferredDifficulty = beginner\<rparr>"
  let ?b = "\<lparr>gamesPlayed = 10, gamesWon = 9, averageTime = 30, hintsUsed = 0,
       currentStreak = 6, preferredDifficulty = beginner\<rparr>"
  let ?c = "\<lparr>gamesPlayed = 10, gamesWon = 1, averageTime = 30, hintsUsed = 40,
       currentStreak = - 4, preferredDifficulty = expert\<rparr>"
  have "gamesPlayed ?a < 3" by simp
  with calculateMineCount_bounds[of ?a] have "calculateMineCount ?a = 10" by simp
  moreover have "gamesPlayed ?b \<ge> 3" by simp
  with calculateMineCount_bounds[of ?b] have "calculateMineCount ?b = 15"
    by (simp add: winRateAdjustment_def recentTrendAdjustment_def streakBonusAdjustment_def
        hintOveruseAdjustment_def)
  moreover have "gamesPlayed ?c \<ge> 3" by simp
  with calculateMineCount_bounds[of ?c] have "calculateMineCount ?c = 92"
    by (simp add: winRateAdjustment_def recentTrendAdjustment_def streakBonusAdjustment_def
        hintOveruseAdjustment_def)
  ultimately show ?thesis by simp
qed

end
